theory Spec2Isabelle
  imports Main "HOL-Library.Sublist" "HOL-Library.Multiset"
begin

section \<open>Go values\<close>

text \<open>
  The three widgets of the repository are Go structs whose methods take the struct by
  value and return the changed copy; each method is a function from the old state (and its
  arguments) to the new state. A Go panic is a value of \<open>error\<close>; a method that can
  panic returns \<open>error + state\<close>.

  Go's \<open>int\<close> has 64 bits. Lengths, indices, positions and the widget's dimensions are
  bounded by memory and by the terminal, and sums among them are written with the
  integers' \<open>+\<close> and \<open>-\<close>. The scroll amount \<open>num\<close> of \<open>ViewScroll\<close> and
  \<open>PageScroll\<close> is a free argument of the caller: every sum and product it enters is
  written with its wrap-around, \<open>i64\<close>.

  A Go string is handled by the code as its sequence of runes (\<open>[]rune(s)\<close>); a
  \<open>string\<close> here is that sequence, one \<open>char\<close> per rune.
\<close>

datatype error = IndexOutOfRange | SliceBoundsOutOfRange | NoHeaders

definition i64 :: "int \<Rightarrow> int" where
  "i64 x = (x + 9223372036854775808) mod 18446744073709551616 - 9223372036854775808"

definition in64 :: "int \<Rightarrow> bool" where
  "in64 x = (- 9223372036854775808 \<le> x \<and> x < 9223372036854775808)"

text \<open>\<open>xs[i]\<close>: an index outside \<open>0 .. len(xs)-1\<close> panics.\<close>

definition index :: "'a list \<Rightarrow> int \<Rightarrow> error + 'a" where
  "index xs i = (if 0 \<le> i \<and> i < int (length xs) then Inr (xs ! nat i) else Inl IndexOutOfRange)"

text \<open>
  \<open>w[lo:hi]\<close>: panics unless \<open>0 \<le> lo \<le> hi \<le> cap(w)\<close>. The code only slices with
  \<open>hi\<close> below the length whenever \<open>lo \<le> hi\<close> (the loop guard of \<open>parseContent\<close>), so
  the capacity is never reached and the bound is written with the length.
\<close>

definition slice :: "'a list \<Rightarrow> int \<Rightarrow> int \<Rightarrow> error + 'a list" where
  "slice w lo hi =
     (if 0 \<le> lo \<and> lo \<le> hi \<and> hi \<le> int (length w)
      then Inr (take (nat (hi - lo)) (drop (nat lo) w))
      else Inl SliceBoundsOutOfRange)"

text \<open>\<open>w[lo:]\<close>\<close>

definition sliceFrom :: "'a list \<Rightarrow> int \<Rightarrow> error + 'a list" where
  "sliceFrom w lo =
     (if 0 \<le> lo \<and> lo \<le> int (length w) then Inr (drop (nat lo) w)
      else Inl SliceBoundsOutOfRange)"

section \<open>The table with filter and sort (package table, \<open>TableModel\<close>)\<close>

text \<open>
  The fields the methods below read or write; the styles, the title, the key bindings and
  the column sizes only matter to \<open>View\<close>. The fields whose names the line list also
  uses carry the suffix \<open>T\<close>.
\<close>

datatype SortOrder = SortAscendig | SortDescending | SortUnsorted

record TableModel =
  widthT :: int
  heightT :: int
  headers :: "string list"
  contentT :: "string list list"
  selectedLineT :: int
  scrolledTopT :: int
  filterT :: string
  filterColums :: "int list"
  filteredContent :: "string list list"
  sortByCol :: int
  sortOrder :: SortOrder
  sortedContent :: "string list list"

text \<open>
  \<open>NewTableModel(WithHeaders(hs...), WithContent(rows...))\<close>: \<open>WithContent\<close> sets
  \<open>content\<close> and \<open>filteredContent\<close>; without \<open>WithFilterColums\<close> every column is a
  filter column; no headers is a panic.
\<close>

definition NewTableModel :: "string list \<Rightarrow> string list list \<Rightarrow> error + TableModel" where
  "NewTableModel hs rows =
     (if length hs = 0 then Inl NoHeaders
      else Inr \<lparr>widthT = 0, heightT = 0, headers = hs, contentT = rows, selectedLineT = 0,
                scrolledTopT = 0, filterT = [], filterColums = map int [0..<length hs],
                filteredContent = rows, sortByCol = 0, sortOrder = SortUnsorted,
                sortedContent = []\<rparr>)"

definition SetSizeT :: "TableModel \<Rightarrow> int \<Rightarrow> int \<Rightarrow> TableModel" where
  "SetSizeT m w h = m\<lparr>widthT := w, heightT := h\<rparr>"

text \<open>
  \<open>strings.Contains(s, substr)\<close>: \<open>substr\<close> occurs in \<open>s\<close> as a contiguous block.
\<close>

fun Contains :: "string \<Rightarrow> string \<Rightarrow> bool" where
  "Contains [] substr = (substr = [])"
| "Contains (c # cs) substr = (prefix substr (c # cs) \<or> Contains cs substr)"

text \<open>
  The inner loop of \<open>filterContent\<close> over \<open>m.filterColums\<close>: the first column whose
  lower-cased cell contains the lower-cased filter keeps the line (\<open>break line\<close>); a
  column the line does not have panics when the loop reaches it. \<open>ToLower\<close> is
  \<open>strings.ToLower\<close> of Go's library, a parameter.
\<close>

fun matchColumns :: "(string \<Rightarrow> string) \<Rightarrow> string \<Rightarrow> string list \<Rightarrow> int list \<Rightarrow> error + bool" where
  "matchColumns ToLower flt line [] = Inr False"
| "matchColumns ToLower flt line (colN # cols) =
     (case index line colN of
        Inl e \<Rightarrow> Inl e
      | Inr cell \<Rightarrow>
          if Contains (ToLower cell) flt then Inr True
          else matchColumns ToLower flt line cols)"

fun filterLines ::
  "(string \<Rightarrow> string) \<Rightarrow> string \<Rightarrow> int list \<Rightarrow> string list list \<Rightarrow> string list list
   \<Rightarrow> error + string list list" where
  "filterLines ToLower flt cols [] ret = Inr ret"
| "filterLines ToLower flt cols (line # rest) ret =
     (case matchColumns ToLower flt line cols of
        Inl e \<Rightarrow> Inl e
      | Inr hit \<Rightarrow> filterLines ToLower flt cols rest (if hit then ret @ [line] else ret))"

definition filterContent :: "(string \<Rightarrow> string) \<Rightarrow> TableModel \<Rightarrow> error + string list list" where
  "filterContent ToLower m =
     (if filterT m = [] then Inr (contentT m)
      else filterLines ToLower (ToLower (filterT m)) (filterColums m) (contentT m) [])"

text \<open>
  The comparison that \<open>sortFilteredContent\<close> hands to \<open>slices.SortFunc\<close>.
  \<open>CompareString\<close> is the Czech collator's comparison (package
  \<open>golang.org/x/text/collate\<close>), a parameter; \<open>a[m.sortByCol]\<close> panics on a line
  without that column.
\<close>

definition compareLines ::
  "(string \<Rightarrow> string \<Rightarrow> int) \<Rightarrow> SortOrder \<Rightarrow> int \<Rightarrow> string list \<Rightarrow> string list \<Rightarrow> error + int" where
  "compareLines CompareString ord col a b =
     (case ord of
        SortAscendig \<Rightarrow>
          (case index a col of
             Inl e \<Rightarrow> Inl e
           | Inr x \<Rightarrow> (case index b col of Inl e \<Rightarrow> Inl e | Inr y \<Rightarrow> Inr (CompareString x y)))
      | SortDescending \<Rightarrow>
          (case index b col of
             Inl e \<Rightarrow> Inl e
           | Inr y \<Rightarrow> (case index a col of Inl e \<Rightarrow> Inl e | Inr x \<Rightarrow> Inr (CompareString y x)))
      | SortUnsorted \<Rightarrow> Inr 0)"

text \<open>
  Modelled from the spec: \<open>slices.SortFunc\<close> is Go's library sort, which the repository
  calls and does not contain. The spec (4.4) describes the sort of the rows as stable; it
  is written here as the insertion sort that Go's library itself runs on short slices: each
  element moves left past the elements it compares below (\<open>cmp(x, y) < 0\<close>). The sorted
  prefix is kept reversed, its last element first. A comparison that panics ends the sort.
\<close>

fun insertLeft :: "('a \<Rightarrow> 'a \<Rightarrow> error + int) \<Rightarrow> 'a \<Rightarrow> 'a list \<Rightarrow> error + 'a list" where
  "insertLeft cmp x [] = Inr [x]"
| "insertLeft cmp x (y # ys) =
     (case cmp x y of
        Inl e \<Rightarrow> Inl e
      | Inr c \<Rightarrow>
          if c < 0 then (case insertLeft cmp x ys of Inl e \<Rightarrow> Inl e | Inr zs \<Rightarrow> Inr (y # zs))
          else Inr (x # y # ys))"

fun sortLoop :: "('a \<Rightarrow> 'a \<Rightarrow> error + int) \<Rightarrow> 'a list \<Rightarrow> 'a list \<Rightarrow> error + 'a list" where
  "sortLoop cmp [] pre = Inr (rev pre)"
| "sortLoop cmp (x # xs) pre =
     (case insertLeft cmp x pre of Inl e \<Rightarrow> Inl e | Inr pre' \<Rightarrow> sortLoop cmp xs pre')"

definition SortFunc :: "('a \<Rightarrow> 'a \<Rightarrow> error + int) \<Rightarrow> 'a list \<Rightarrow> error + 'a list" where
  "SortFunc cmp s = sortLoop cmp s []"

definition sortFilteredContent ::
  "(string \<Rightarrow> string \<Rightarrow> int) \<Rightarrow> TableModel \<Rightarrow> error + string list list" where
  "sortFilteredContent CompareString m =
     (if sortOrder m \<noteq> SortUnsorted
      then SortFunc (compareLines CompareString (sortOrder m) (sortByCol m)) (filteredContent m)
      else Inr (filteredContent m))"

definition Sort ::
  "(string \<Rightarrow> string \<Rightarrow> int) \<Rightarrow> TableModel \<Rightarrow> int \<Rightarrow> SortOrder \<Rightarrow> error + TableModel" where
  "Sort CompareString m col dir =
     (if col > int (length (headers m)) - 1 then Inr m
      else
        let m1 = m\<lparr>sortByCol := col, sortOrder := dir\<rparr> in
        if dir = SortUnsorted then Inr (m1\<lparr>sortedContent := filteredContent m1\<rparr>)
        else
          (case sortFilteredContent CompareString m1 of
             Inl e \<Rightarrow> Inl e
           | Inr s \<Rightarrow> Inr (m1\<lparr>sortedContent := s\<rparr>)))"

definition SetFilter ::
  "(string \<Rightarrow> string) \<Rightarrow> (string \<Rightarrow> string \<Rightarrow> int) \<Rightarrow> TableModel \<Rightarrow> string \<Rightarrow> error + TableModel" where
  "SetFilter ToLower CompareString m flt =
     (let m1 = m\<lparr>filterT := flt\<rparr> in
      case filterContent ToLower m1 of
        Inl e \<Rightarrow> Inl e
      | Inr f \<Rightarrow>
          let m2 = m1\<lparr>filteredContent := f\<rparr> in
          (case sortFilteredContent CompareString m2 of
             Inl e \<Rightarrow> Inl e
           | Inr s \<Rightarrow> Inr (m2\<lparr>sortedContent := s, scrolledTopT := 0, selectedLineT := 0\<rparr>)))"

definition SetContentT ::
  "(string \<Rightarrow> string) \<Rightarrow> (string \<Rightarrow> string \<Rightarrow> int) \<Rightarrow> TableModel \<Rightarrow> string list list
   \<Rightarrow> error + TableModel" where
  "SetContentT ToLower CompareString m rows =
     (let m1 = m\<lparr>contentT := rows\<rparr> in
      case filterContent ToLower m1 of
        Inl e \<Rightarrow> Inl e
      | Inr f \<Rightarrow>
          let m2 = m1\<lparr>filteredContent := f\<rparr> in
          (case sortFilteredContent CompareString m2 of
             Inl e \<Rightarrow> Inl e
           | Inr s \<Rightarrow> Inr (m2\<lparr>sortedContent := s\<rparr>)))"

definition AppendContentT ::
  "(string \<Rightarrow> string) \<Rightarrow> (string \<Rightarrow> string \<Rightarrow> int) \<Rightarrow> TableModel \<Rightarrow> string list list
   \<Rightarrow> error + TableModel" where
  "AppendContentT ToLower CompareString m rows =
     (let m1 = m\<lparr>contentT := contentT m @ rows\<rparr> in
      case filterContent ToLower m1 of
        Inl e \<Rightarrow> Inl e
      | Inr f \<Rightarrow>
          let m2 = m1\<lparr>filteredContent := f\<rparr> in
          (case sortFilteredContent CompareString m2 of
             Inl e \<Rightarrow> Inl e
           | Inr s \<Rightarrow> Inr (m2\<lparr>sortedContent := s\<rparr>)))"

text \<open>
  \<open>View\<close> shows the rows \<open>m.sortedContent[m.scrolledTop:linesHeight]\<close>, where
  \<open>linesHeight = min(height-3+m.scrolledTop, len(m.sortedContent))\<close> and \<open>height\<close> is
  \<open>m.height\<close>, one less when a filter is shown.
\<close>

definition linesHeight :: "TableModel \<Rightarrow> int" where
  "linesHeight m =
     (let height = (if filterT m \<noteq> [] then heightT m - 1 else heightT m)
      in min (height - 3 + scrolledTopT m) (int (length (sortedContent m))))"

definition SetSelectedLineT :: "TableModel \<Rightarrow> int \<Rightarrow> TableModel" where
  "SetSelectedLineT m line =
     (if line < int (length (filteredContent m)) \<and> line \<ge> 0 then
        let m1 = m\<lparr>selectedLineT := line\<rparr> in
        if selectedLineT m1 \<ge> scrolledTopT m1 + (heightT m1 - 4) then
          (if filterT m1 = [] then m1\<lparr>scrolledTopT := selectedLineT m1 - (heightT m1 - 4)\<rparr>
           else m1\<lparr>scrolledTopT := selectedLineT m1 - (heightT m1 - 5)\<rparr>)
        else if selectedLineT m1 < scrolledTopT m1 then m1\<lparr>scrolledTopT := selectedLineT m1\<rparr>
        else m1
      else m)"

definition SelectLastLineT :: "TableModel \<Rightarrow> TableModel" where
  "SelectLastLineT m = SetSelectedLineT m (int (length (filteredContent m)) - 1)"

definition ViewScrollT :: "TableModel \<Rightarrow> int \<Rightarrow> TableModel" where
  "ViewScrollT m num =
     (if num > 0 then
        (if i64 (scrolledTopT m + num) \<le> int (length (filteredContent m)) - heightT m + 3
         then m\<lparr>scrolledTopT := i64 (scrolledTopT m + num)\<rparr> else m)
      else if num < 0 then
        (if i64 (scrolledTopT m + num) \<ge> 0
         then m\<lparr>scrolledTopT := i64 (scrolledTopT m + num)\<rparr> else m)
      else m)"

text \<open>
  \<open>PageScroll\<close>, statement by statement: \<open>height\<close> is the local variable (one less when
  a filter is shown), \<open>m1\<close> to \<open>m4\<close> are the receiver after each block.
\<close>

definition PageScrollT :: "TableModel \<Rightarrow> int \<Rightarrow> bool \<Rightarrow> TableModel" where
  "PageScrollT m num moveSelected =
     (let height = (if filterT m \<noteq> [] then heightT m - 1 else heightT m);
          m1 = m\<lparr>scrolledTopT := i64 (scrolledTopT m + i64 ((height - 3) * num))\<rparr>;
          m2 = (if num > 0 then
                  (if moveSelected then m1\<lparr>selectedLineT := scrolledTopT m1 + height - 4\<rparr> else m1)
                else if num < 0 then
                  (if moveSelected then m1\<lparr>selectedLineT := scrolledTopT m1\<rparr> else m1)
                else m1);
          m3 = (if scrolledTopT m2 < 0 then
                  (let m' = m2\<lparr>scrolledTopT := 0\<rparr> in
                   if moveSelected then m'\<lparr>selectedLineT := scrolledTopT m'\<rparr> else m')
                else m2);
          lenContent = int (length (filteredContent m3))
      in
        if scrolledTopT m3 > lenContent - height - 3 then
          (let m' = m3\<lparr>scrolledTopT := max (lenContent - height + 3) 0\<rparr> in
           if moveSelected then
             (let m'' = m'\<lparr>selectedLineT := scrolledTopT m' + height - 4\<rparr> in
              if selectedLineT m'' > lenContent then m''\<lparr>selectedLineT := lenContent - 1\<rparr> else m'')
           else m')
        else m3)"

section \<open>The table without filter (the second package table, \<open>TableModel\<close>)\<close>

text \<open>
  The repository holds a second table widget, without filter and sort, whose methods have
  the same names. Its fields carry the suffix \<open>P\<close>; its \<open>View\<close> shows the rows
  \<open>m.content[m.scrolledTop : min(m.height-4+m.scrolledTop, len(m.content))]\<close>.
\<close>

record PlainTableModel =
  widthP :: int
  heightP :: int
  contentP :: "string list list"
  selectedLineP :: int
  scrolledTopP :: int

definition NewPlainTableModel :: "string list list \<Rightarrow> PlainTableModel" where
  "NewPlainTableModel rows =
     \<lparr>widthP = 0, heightP = 0, contentP = rows, selectedLineP = 0, scrolledTopP = 0\<rparr>"

definition SetSizeP :: "PlainTableModel \<Rightarrow> int \<Rightarrow> int \<Rightarrow> PlainTableModel" where
  "SetSizeP m w h = m\<lparr>widthP := w, heightP := h\<rparr>"

definition SetContentP :: "PlainTableModel \<Rightarrow> string list list \<Rightarrow> PlainTableModel" where
  "SetContentP m rows = m\<lparr>contentP := rows\<rparr>"

definition AppendContentP :: "PlainTableModel \<Rightarrow> string list list \<Rightarrow> PlainTableModel" where
  "AppendContentP m rows = m\<lparr>contentP := contentP m @ rows\<rparr>"

definition SetSelectedLineP :: "PlainTableModel \<Rightarrow> int \<Rightarrow> PlainTableModel" where
  "SetSelectedLineP m line =
     (if line < int (length (contentP m)) \<and> line \<ge> 0 then
        let m1 = m\<lparr>selectedLineP := line\<rparr> in
        if selectedLineP m1 \<ge> scrolledTopP m1 + (heightP m1 - 5)
        then m1\<lparr>scrolledTopP := selectedLineP m1 - (heightP m1 - 5)\<rparr>
        else if selectedLineP m1 < scrolledTopP m1 then m1\<lparr>scrolledTopP := selectedLineP m1\<rparr>
        else m1
      else m)"

definition SelectLastLineP :: "PlainTableModel \<Rightarrow> PlainTableModel" where
  "SelectLastLineP m = SetSelectedLineP m (int (length (contentP m)) - 1)"

definition ViewScrollP :: "PlainTableModel \<Rightarrow> int \<Rightarrow> PlainTableModel" where
  "ViewScrollP m num =
     (if num > 0 then
        (if i64 (scrolledTopP m + num) \<le> int (length (contentP m)) - heightP m + 4
         then m\<lparr>scrolledTopP := i64 (scrolledTopP m + num)\<rparr> else m)
      else if num < 0 then
        (if i64 (scrolledTopP m + num) \<ge> 0
         then m\<lparr>scrolledTopP := i64 (scrolledTopP m + num)\<rparr> else m)
      else m)"

definition PageScrollP :: "PlainTableModel \<Rightarrow> int \<Rightarrow> bool \<Rightarrow> PlainTableModel" where
  "PageScrollP m num moveSelected =
     (let m1 = (if num > 0 then
                  (let m' = m\<lparr>scrolledTopP := i64 (scrolledTopP m + i64 (i64 ((heightP m - 5) * num) + 1))\<rparr> in
                   if moveSelected then m'\<lparr>selectedLineP := scrolledTopP m' + heightP m' - 5\<rparr> else m')
                else if num < 0 then
                  (let m' = m\<lparr>scrolledTopP := i64 (scrolledTopP m + i64 (i64 ((heightP m - 5) * num) - 1))\<rparr> in
                   if moveSelected then m'\<lparr>selectedLineP := scrolledTopP m'\<rparr> else m')
                else m);
          m2 = (if scrolledTopP m1 \<le> 0 then
                  (let m' = m1\<lparr>scrolledTopP := 0\<rparr> in
                   if moveSelected then m'\<lparr>selectedLineP := scrolledTopP m'\<rparr> else m')
                else m1)
      in
        if scrolledTopP m2 > int (length (contentP m2)) - heightP m2 - 5 then
          (let m' = m2\<lparr>scrolledTopP := int (length (contentP m2)) - heightP m2 + 4\<rparr> in
           if moveSelected then m'\<lparr>selectedLineP := scrolledTopP m' + heightP m' - 5\<rparr> else m')
        else m2)"

section \<open>The line list (package tm, \<open>TextModel\<close>)\<close>

text \<open>
  The fields the methods below read or write. The two maps are Go maps: a key that is not
  there reads as the zero value (\<open>0\<close>, the \<open>nil\<close> slice).
\<close>

record TextModel =
  width :: int
  height :: int
  content :: "string list"
  parsedContent :: "string list"
  selectedLine :: int
  selectedParsedLines :: "int list"
  selectableParsedLinesMap :: "int \<rightharpoonup> int"
  parsedSelectableLinesMap :: "int \<rightharpoonup> int list"
  scrolledTop :: int

text \<open>\<open>NewTextModel(WithContent(text...))\<close>\<close>

definition NewTextModel :: "string list \<Rightarrow> TextModel" where
  "NewTextModel text =
     \<lparr>width = 0, height = 0, content = text, parsedContent = [], selectedLine = 0,
      selectedParsedLines = [], selectableParsedLinesMap = Map.empty,
      parsedSelectableLinesMap = Map.empty, scrolledTop = 0\<rparr>"

definition lineOf :: "(int \<rightharpoonup> int) \<Rightarrow> int \<Rightarrow> int" where
  "lineOf mp k = (case mp k of None \<Rightarrow> 0 | Some v \<Rightarrow> v)"

definition linesOf :: "(int \<rightharpoonup> int list) \<Rightarrow> int \<Rightarrow> int list" where
  "linesOf mp k = (case mp k of None \<Rightarrow> [] | Some v \<Rightarrow> v)"

text \<open>\<open>strings.Split(s, "\n")\<close>: the pieces between the line feeds, at least one.\<close>

fun Split :: "string \<Rightarrow> string list" where
  "Split [] = [[]]"
| "Split (c # cs) =
     (if c = CHR 0x0A then [] # Split cs
      else (c # hd (Split cs)) # tl (Split cs))"

text \<open>
  The hard split of one wrapped line \<open>w\<close> in \<open>parseContent\<close>:

  \<^verbatim>\<open>for i := 0; i < len(w)-1-m.width-2+5; i += (m.width - 2) {
      z = i
      ws2 = append(ws2, string(w[i:i+m.width-2]))
  }\<close>

  With \<open>m.width = 2\<close> the step is \<open>0\<close> and the loop never ends on a line that is not
  empty: the loop is a partial function, \<open>None\<close> when it does not return. It returns the
  last \<open>z\<close> and the grown \<open>ws2\<close>.
\<close>

partial_function (option) splitLoop ::
  "int \<Rightarrow> string \<Rightarrow> int \<Rightarrow> int \<Rightarrow> string list \<Rightarrow> (error + int \<times> string list) option" where
  "splitLoop wd w i z ws2 =
     (if i < int (length w) - 1 - wd - 2 + 5 then
        (case slice w i (i + wd - 2) of
           Inl e \<Rightarrow> Some (Inl e)
         | Inr piece \<Rightarrow> splitLoop wd w (i + (wd - 2)) i (ws2 @ [piece]))
      else Some (Inr (z, ws2)))"

definition splitLine :: "int \<Rightarrow> string \<Rightarrow> string list \<Rightarrow> (error + string list) option" where
  "splitLine wd w ws2 =
     (if int (length w) - 1 \<ge> wd - 2 then
        (case splitLoop wd w 0 0 ws2 of
           None \<Rightarrow> None
         | Some (Inl e) \<Rightarrow> Some (Inl e)
         | Some (Inr (z, ws2')) \<Rightarrow>
             (case sliceFrom w (z + wd - 2) of
                Inl e \<Rightarrow> Some (Inl e)
              | Inr piece \<Rightarrow> Some (Inr (ws2' @ [piece]))))
      else Some (Inr (ws2 @ [w])))"

fun splitLines :: "int \<Rightarrow> string list \<Rightarrow> string list \<Rightarrow> (error + string list) option" where
  "splitLines wd [] ws2 = Some (Inr ws2)"
| "splitLines wd (wl # ws) ws2 =
     (case splitLine wd wl ws2 of
        None \<Rightarrow> None
      | Some (Inl e) \<Rightarrow> Some (Inl e)
      | Some (Inr ws2') \<Rightarrow> splitLines wd ws ws2')"

text \<open>
  The display lines \<open>ws2\<close> of one content line. \<open>wordwrap\<close> is \<open>wordwrap.String\<close> of
  the package \<open>github.com/muesli/reflow\<close>, a parameter.
\<close>

definition wrapLine :: "(string \<Rightarrow> int \<Rightarrow> string) \<Rightarrow> int \<Rightarrow> string \<Rightarrow> (error + string list) option" where
  "wrapLine wordwrap wd line = splitLines wd (Split (wordwrap line (wd - 2))) []"

text \<open>
  The first \<open>for i := range ws2\<close> of the loop body: display line \<open>i + parsedContentLineNum\<close>
  belongs to content line \<open>lineNum\<close>.
\<close>

fun indexLines :: "int \<Rightarrow> int \<Rightarrow> nat list \<Rightarrow> TextModel \<Rightarrow> TextModel" where
  "indexLines lineNum parsedContentLineNum [] m = m"
| "indexLines lineNum parsedContentLineNum (i # is) m =
     indexLines lineNum parsedContentLineNum is
       (m\<lparr>selectableParsedLinesMap :=
            (selectableParsedLinesMap m)(int i + parsedContentLineNum \<mapsto> lineNum),
          parsedSelectableLinesMap :=
            (parsedSelectableLinesMap m)(lineNum \<mapsto>
               linesOf (parsedSelectableLinesMap m) lineNum @ [int i + parsedContentLineNum])\<rparr>)"

text \<open>
  The rest of the loop body, once the display lines \<open>ws2\<close> of content line \<open>lineNum\<close>
  are there: they are indexed, rendered and marked when the line is the selected one, and
  appended. \<open>render\<close> is \<open>m.selectedLineStyle.Render\<close> (package lipgloss), a parameter.
\<close>

definition addLine :: "(string \<Rightarrow> string) \<Rightarrow> int \<Rightarrow> int \<Rightarrow> string list \<Rightarrow> TextModel \<Rightarrow> TextModel" where
  "addLine render lineNum parsedContentLineNum ws2 m =
     (let m1 = indexLines lineNum parsedContentLineNum [0..<length ws2] m;
          sel = (lineNum = selectedLine m1);
          ws2' = (if sel then map render ws2 else ws2);
          m2 = (if sel
                then m1\<lparr>selectedParsedLines :=
                       selectedParsedLines m1 @
                       map (\<lambda>i. parsedContentLineNum + int i) [0..<length ws2]\<rparr>
                else m1)
      in m2\<lparr>parsedContent := parsedContent m2 @ ws2'\<rparr>)"

text \<open>
  The loop of \<open>parseContent\<close> over \<open>m.content\<close>, from content line \<open>lineNum\<close> on;
  \<open>parsedContentLineNum\<close> counts the display lines so far.
\<close>

fun parseLines ::
  "(string \<Rightarrow> int \<Rightarrow> string) \<Rightarrow> (string \<Rightarrow> string) \<Rightarrow> int \<Rightarrow> int \<Rightarrow> string list \<Rightarrow> TextModel
   \<Rightarrow> (error + TextModel) option" where
  "parseLines wordwrap render lineNum parsedContentLineNum [] m = Some (Inr m)"
| "parseLines wordwrap render lineNum parsedContentLineNum (line # rest) m =
     (case wrapLine wordwrap (width m) line of
        None \<Rightarrow> None
      | Some (Inl e) \<Rightarrow> Some (Inl e)
      | Some (Inr ws2) \<Rightarrow>
          parseLines wordwrap render (lineNum + 1) (parsedContentLineNum + int (length ws2)) rest
            (addLine render lineNum parsedContentLineNum ws2 m))"

definition parseContent ::
  "(string \<Rightarrow> int \<Rightarrow> string) \<Rightarrow> (string \<Rightarrow> string) \<Rightarrow> TextModel \<Rightarrow> (error + TextModel) option" where
  "parseContent wordwrap render m =
     (if width m = 0 \<or> height m = 0 then Some (Inr m)
      else
        parseLines wordwrap render 0 0 (content m)
          (m\<lparr>parsedContent := [], selectedParsedLines := [],
             selectableParsedLinesMap := Map.empty, parsedSelectableLinesMap := Map.empty\<rparr>))"

definition SetSize ::
  "(string \<Rightarrow> int \<Rightarrow> string) \<Rightarrow> (string \<Rightarrow> string) \<Rightarrow> TextModel \<Rightarrow> int \<Rightarrow> int
   \<Rightarrow> (error + TextModel) option" where
  "SetSize wordwrap render m w h = parseContent wordwrap render (m\<lparr>width := w, height := h\<rparr>)"

text \<open>
  The display lines that \<open>View\<close> writes: its loop over \<open>m.parsedContent\<close> skips
  \<open>lineNum < m.scrolledTop\<close> and stops at \<open>lineNum > m.height-3+m.scrolledTop\<close>, so the
  window holds \<open>m.height - 2\<close> display lines (the other two rows are the border).
\<close>

definition viewLines :: "TextModel \<Rightarrow> int list" where
  "viewLines m =
     filter (\<lambda>lineNum. \<not> lineNum < scrolledTop m \<and> \<not> lineNum > height m - 3 + scrolledTop m)
       (map int [0..<length (parsedContent m)])"

definition ViewScroll :: "TextModel \<Rightarrow> int \<Rightarrow> TextModel" where
  "ViewScroll m num =
     (let m1 = (if num > 0 then
                  (if i64 (scrolledTop m + num) < int (length (parsedContent m)) - height m + 3
                   then m\<lparr>scrolledTop := i64 (scrolledTop m + num)\<rparr> else m)
                else m)
      in
        if num < 0 then
          (if i64 (scrolledTop m1 + num) > 0
           then m1\<lparr>scrolledTop := i64 (scrolledTop m1 + num)\<rparr> else m1)
        else m1)"

text \<open>
  The scroll part of \<open>PageScroll\<close>, before its closing \<open>m.parseContent()\<close>. Reading
  the last element of an empty slice panics (index \<open>-1\<close>), and so does reading the first.
\<close>

definition pageMove :: "TextModel \<Rightarrow> int \<Rightarrow> bool \<Rightarrow> error + TextModel" where
  "pageMove m num moveSelected =
     (let len = int (length (parsedContent m)) in
      if num > 0 then
        (if scrolledTop m < len - height m + 2 then
           (let m1 = m\<lparr>scrolledTop := i64 (scrolledTop m + i64 ((height m - 2) * num))\<rparr> in
            if scrolledTop m1 > len - 2 then
              (let m2 = m1\<lparr>scrolledTop := len - height m1 + 2\<rparr> in
               Inr (if moveSelected then m2\<lparr>selectedLine := int (length (content m2)) - 1\<rparr> else m2))
            else if scrolledTop m1 > len - 1 - height m1 - 2 then
              (let m2 = m1\<lparr>scrolledTop := len - height m1 + 2\<rparr> in
               Inr (if moveSelected then m2\<lparr>selectedLine := int (length (content m2)) - 1\<rparr> else m2))
            else if moveSelected then
              (let m2 = m1\<lparr>selectedLine :=
                          lineOf (selectableParsedLinesMap m1) (scrolledTop m1 + height m1 - 3)\<rparr>;
                   ls = linesOf (parsedSelectableLinesMap m2) (selectedLine m2)
               in case index ls (int (length ls) - 1) of
                    Inl e \<Rightarrow> Inl e
                  | Inr l \<Rightarrow> Inr (m2\<lparr>scrolledTop := l - height m2 + 3\<rparr>))
            else Inr m1)
         else Inr m)
      else if num < 0 then
        (if scrolledTop m > 0 then
           (let m1 = m\<lparr>scrolledTop := i64 (scrolledTop m - i64 ((height m - 2) * i64 (- num)))\<rparr> in
            if scrolledTop m1 < 0 then
              (let m2 = m1\<lparr>scrolledTop := 0\<rparr> in
               Inr (if moveSelected then m2\<lparr>selectedLine := 0\<rparr> else m2))
            else if moveSelected then
              (let m2 = m1\<lparr>selectedLine := lineOf (selectableParsedLinesMap m1) (scrolledTop m1)\<rparr>
               in case index (linesOf (parsedSelectableLinesMap m2) (selectedLine m2)) 0 of
                    Inl e \<Rightarrow> Inl e
                  | Inr l \<Rightarrow> Inr (m2\<lparr>scrolledTop := l\<rparr>))
            else Inr m1)
         else Inr m)
      else Inr m)"

definition PageScroll ::
  "(string \<Rightarrow> int \<Rightarrow> string) \<Rightarrow> (string \<Rightarrow> string) \<Rightarrow> TextModel \<Rightarrow> int \<Rightarrow> bool
   \<Rightarrow> (error + TextModel) option" where
  "PageScroll wordwrap render m num moveSelected =
     (case pageMove m num moveSelected of
        Inl e \<Rightarrow> Some (Inl e)
      | Inr m1 \<Rightarrow> parseContent wordwrap render m1)"

text \<open>The scroll part of \<open>SetSelectedLine\<close>, after its \<open>m.parseContent()\<close>.\<close>

definition showSelected :: "TextModel \<Rightarrow> error + TextModel" where
  "showSelected m =
     (let n = int (length (selectedParsedLines m)) in
      case index (selectedParsedLines m) (n - 1) of
        Inl e \<Rightarrow> Inl e
      | Inr l \<Rightarrow>
          (let m1 = (if l > scrolledTop m + height m - n - 2
                     then m\<lparr>scrolledTop := l - height m + 3\<rparr> else m)
           in case index (selectedParsedLines m1) 0 of
                Inl e \<Rightarrow> Inl e
              | Inr f \<Rightarrow>
                  (let m2 = (if f < scrolledTop m1 then m1\<lparr>scrolledTop := f\<rparr> else m1)
                   in Inr (if scrolledTop m2 < 0 then m2\<lparr>scrolledTop := 0\<rparr> else m2))))"

definition SetSelectedLine ::
  "(string \<Rightarrow> int \<Rightarrow> string) \<Rightarrow> (string \<Rightarrow> string) \<Rightarrow> TextModel \<Rightarrow> int \<Rightarrow> (error + TextModel) option" where
  "SetSelectedLine wordwrap render m numLine =
     (case parseContent wordwrap render (m\<lparr>selectedLine := numLine\<rparr>) of
        None \<Rightarrow> None
      | Some (Inl e) \<Rightarrow> Some (Inl e)
      | Some (Inr m1) \<Rightarrow> Some (showSelected m1))"

definition SelectLastLine ::
  "(string \<Rightarrow> int \<Rightarrow> string) \<Rightarrow> (string \<Rightarrow> string) \<Rightarrow> TextModel \<Rightarrow> (error + TextModel) option" where
  "SelectLastLine wordwrap render m =
     (if selectedLine m < int (length (content m)) - 1
      then SetSelectedLine wordwrap render m (int (length (content m)) - 1)
      else Some (Inr m))"

definition SetContent ::
  "(string \<Rightarrow> int \<Rightarrow> string) \<Rightarrow> (string \<Rightarrow> string) \<Rightarrow> TextModel \<Rightarrow> string list
   \<Rightarrow> (error + TextModel) option" where
  "SetContent wordwrap render m text =
     parseContent wordwrap render (m\<lparr>selectedLine := 0, scrolledTop := 0, content := text\<rparr>)"

definition AppendContent ::
  "(string \<Rightarrow> int \<Rightarrow> string) \<Rightarrow> (string \<Rightarrow> string) \<Rightarrow> TextModel \<Rightarrow> string list
   \<Rightarrow> (error + TextModel) option" where
  "AppendContent wordwrap render m text =
     (let move = (selectedLine m = int (length (content m)) - 1);
          m1 = (if move then m\<lparr>selectedLine := int (length (content m)) - 1 + int (length text)\<rparr> else m);
          m2 = m1\<lparr>content := content m1 @ text\<rparr>
      in case parseContent wordwrap render m2 of
           None \<Rightarrow> None
         | Some (Inl e) \<Rightarrow> Some (Inl e)
         | Some (Inr m3) \<Rightarrow>
             Some (Inr (if move \<and> int (length (parsedContent m3)) > height m3 - 2
                        then m3\<lparr>scrolledTop := int (length (parsedContent m3)) - height m3 + 2\<rparr>
                        else m3)))"

section \<open>Functions that describe results\<close>

text \<open>
  These functions are not part of the program; the lemmas below state with them what the
  loops of \<open>parseContent\<close> compute. \<open>chunks n w\<close> cuts \<open>w\<close> into pieces of \<open>n\<close>
  elements, the last piece holding what is left (at least one element when \<open>w\<close> is not
  empty); \<open>span p n\<close> is the numbers \<open>p, p+1, ..., p+n-1\<close>; \<open>wrapped\<close> is the list of
  display lines of a content line when \<open>wrapLine\<close> returns one; \<open>lineTotal\<close> counts
  the display lines of a list of content lines.
\<close>

function chunks :: "nat \<Rightarrow> 'a list \<Rightarrow> 'a list list" where
  "chunks n w = (if n = 0 \<or> length w \<le> n then [w] else take n w # chunks n (drop n w))"
  by pat_completeness auto
termination
  by (relation "measure (\<lambda>(n, w). length w)") auto

definition span :: "int \<Rightarrow> nat \<Rightarrow> int list" where
  "span p n = map (\<lambda>i. p + int i) [0..<n]"

definition wrapped :: "(string \<Rightarrow> int \<Rightarrow> string) \<Rightarrow> int \<Rightarrow> string \<Rightarrow> string list" where
  "wrapped wordwrap wd line =
     (case wrapLine wordwrap wd line of Some (Inr ws2) \<Rightarrow> ws2 | _ \<Rightarrow> [])"

definition lineTotal :: "(string \<Rightarrow> string list) \<Rightarrow> string list \<Rightarrow> nat" where
  "lineTotal L rows = sum_list (map (\<lambda>row. length (L row)) rows)"

text \<open>
  \<open>addLines\<close> is the loop of \<open>parseContent\<close> once the display lines \<open>L line\<close> of
  every content line are known.
\<close>

fun addLines ::
  "(string \<Rightarrow> string list) \<Rightarrow> (string \<Rightarrow> string) \<Rightarrow> int \<Rightarrow> int \<Rightarrow> string list \<Rightarrow> TextModel
   \<Rightarrow> TextModel" where
  "addLines L render lineNum parsedContentLineNum [] m = m"
| "addLines L render lineNum parsedContentLineNum (line # rest) m =
     addLines L render (lineNum + 1) (parsedContentLineNum + int (length (L line))) rest
       (addLine render lineNum parsedContentLineNum (L line) m)"

text \<open>
  \<open>parsed\<close> is what \<open>parseContent\<close> returns when it runs its loop and every content
  line has its display lines: the model with its display state rebuilt.
\<close>

definition parsed :: "(string \<Rightarrow> int \<Rightarrow> string) \<Rightarrow> (string \<Rightarrow> string) \<Rightarrow> TextModel \<Rightarrow> TextModel" where
  "parsed wordwrap render m =
     addLines (wrapped wordwrap (width m)) render 0 0 (content m)
       (m\<lparr>parsedContent := [], selectedParsedLines := [],
          selectableParsedLinesMap := Map.empty, parsedSelectableLinesMap := Map.empty\<rparr>)"

section \<open>Facts about the table with filter and sort\<close>

lemma i64_id: "in64 x \<Longrightarrow> i64 x = x"
  by (simp add: i64_def in64_def)

lemma Contains_sublist: "Contains s substr = sublist substr s"
  by (induction s) (auto simp: sublist_Cons_right)

lemma matchColumns_ok:
  "\<forall>c\<in>set cols. 0 \<le> c \<and> c < int (length line) \<Longrightarrow>
   matchColumns ToLower flt line cols = Inr (\<exists>c\<in>set cols. sublist flt (ToLower (line ! nat c)))"
  by (induction cols) (auto simp: index_def Contains_sublist)

lemma filterLines_ok:
  "\<forall>line\<in>set rows. \<forall>c\<in>set cols. 0 \<le> c \<and> c < int (length line) \<Longrightarrow>
   filterLines ToLower flt cols rows ret =
     Inr (ret @ filter (\<lambda>line. \<exists>c\<in>set cols. sublist flt (ToLower (line ! nat c))) rows)"
proof (induction rows arbitrary: ret)
  case Nil
  then show ?case by simp
next
  case (Cons line rest)
  then have "matchColumns ToLower flt line cols = Inr (\<exists>c\<in>set cols. sublist flt (ToLower (line ! nat c)))"
    by (simp add: matchColumns_ok)
  with Cons show ?case by simp
qed

lemma compareLines_ok:
  "0 \<le> col \<Longrightarrow> col < int (length a) \<Longrightarrow> col < int (length b) \<Longrightarrow>
   compareLines C ord col a b =
     Inr (case ord of SortAscendig \<Rightarrow> C (a ! nat col) (b ! nat col)
          | SortDescending \<Rightarrow> C (b ! nat col) (a ! nat col) | SortUnsorted \<Rightarrow> 0)"
  by (simp add: compareLines_def index_def split: SortOrder.splits)

text \<open>The sort with a comparison that does not panic on the set \<open>A\<close>.\<close>

lemma insertLeft_ok:
  assumes "\<forall>a\<in>A. \<forall>b\<in>A. cmp a b = Inr (g a b)" "x \<in> A" "set ys \<subseteq> A"
  shows "\<exists>zs. insertLeft cmp x ys = Inr zs \<and> mset zs = add_mset x (mset ys)"
  using assms by (induction ys) auto

lemma sortLoop_ok:
  assumes "\<forall>a\<in>A. \<forall>b\<in>A. cmp a b = Inr (g a b)" "set xs \<subseteq> A" "set pre \<subseteq> A"
  shows "\<exists>zs. sortLoop cmp xs pre = Inr zs \<and> mset zs = mset xs + mset pre"
  using assms
proof (induction xs arbitrary: pre)
  case Nil
  then show ?case by simp
next
  case (Cons x xs)
  then obtain p' where p': "insertLeft cmp x pre = Inr p'" "mset p' = add_mset x (mset pre)"
    using insertLeft_ok[of A cmp g x pre] by auto
  have "set_mset (mset p') = insert x (set pre)" by (simp add: p'(2))
  then have "set p' \<subseteq> A" using Cons.prems by simp
  then obtain zs where "sortLoop cmp xs p' = Inr zs" "mset zs = mset xs + mset p'"
    using Cons.IH[of p'] Cons.prems by auto
  then show ?case using p' by simp
qed

lemma insertLeft_sorted:
  assumes cmp: "\<forall>a\<in>A. \<forall>b\<in>A. cmp a b = Inr (g a b)"
    and tot: "\<forall>a\<in>A. \<forall>b\<in>A. a \<noteq> b \<longrightarrow> (g a b < 0) = (\<not> g b a < 0)"
    and trans: "\<forall>a\<in>A. \<forall>b\<in>A. \<forall>c\<in>A. g a b < 0 \<and> g b c < 0 \<longrightarrow> g a c < 0"
    and "x \<in> A" "set ys \<subseteq> A" "x \<notin> set ys"
    and "sorted_wrt (\<lambda>a b. g b a < 0) ys"
    and "insertLeft cmp x ys = Inr zs"
  shows "sorted_wrt (\<lambda>a b. g b a < 0) zs \<and> set zs = insert x (set ys)"
  using assms(4-)
proof (induction ys arbitrary: zs)
  case Nil
  then show ?case by auto
next
  case (Cons y ys)
  have yA: "y \<in> A" and xy: "x \<noteq> y" using Cons.prems by auto
  have c: "cmp x y = Inr (g x y)" using cmp Cons.prems yA by auto
  show ?case
  proof (cases "g x y < 0")
    case True
    then obtain zs' where z: "insertLeft cmp x ys = Inr zs'" "zs = y # zs'"
      using Cons.prems c by (auto split: sum.splits)
    have ih: "sorted_wrt (\<lambda>a b. g b a < 0) zs' \<and> set zs' = insert x (set ys)"
      using Cons.IH[OF _ _ _ _ z(1)] Cons.prems by auto
    then show ?thesis using z True Cons.prems by auto
  next
    case False
    then have zs: "zs = x # y # ys" using Cons.prems c by auto
    have gyx: "g y x < 0" using tot False xy yA Cons.prems(1) by blast
    have "\<forall>b\<in>set ys. g b x < 0"
    proof
      fix b assume b: "b \<in> set ys"
      then have "g b y < 0" using Cons.prems by auto
      moreover have "b \<in> A" using b Cons.prems by auto
      ultimately show "g b x < 0" using trans gyx yA Cons.prems(1) by blast
    qed
    then show ?thesis using zs gyx Cons.prems by auto
  qed
qed

lemma sortLoop_sorted:
  assumes cmp: "\<forall>a\<in>A. \<forall>b\<in>A. cmp a b = Inr (g a b)"
    and tot: "\<forall>a\<in>A. \<forall>b\<in>A. a \<noteq> b \<longrightarrow> (g a b < 0) = (\<not> g b a < 0)"
    and trans: "\<forall>a\<in>A. \<forall>b\<in>A. \<forall>c\<in>A. g a b < 0 \<and> g b c < 0 \<longrightarrow> g a c < 0"
    and "set xs \<subseteq> A" "set pre \<subseteq> A" "distinct (xs @ pre)"
    and "sorted_wrt (\<lambda>a b. g b a < 0) pre"
  shows "\<exists>zs. sortLoop cmp xs pre = Inr zs \<and> sorted_wrt (\<lambda>a b. g a b < 0) zs
           \<and> set zs = set xs \<union> set pre \<and> distinct zs"
  using assms(4-)
proof (induction xs arbitrary: pre)
  case Nil
  then show ?case by (simp add: sorted_wrt_rev)
next
  case (Cons x xs)
  obtain p' where p': "insertLeft cmp x pre = Inr p'" "mset p' = add_mset x (mset pre)"
    using insertLeft_ok[OF cmp, of x pre] Cons.prems by auto
  have s: "sorted_wrt (\<lambda>a b. g b a < 0) p' \<and> set p' = insert x (set pre)"
    using insertLeft_sorted[OF cmp tot trans _ _ _ _ p'(1)] Cons.prems by auto
  have "mset p' = mset (x # pre)" using p'(2) by simp
  moreover have "distinct (x # pre)" using Cons.prems by simp
  ultimately have d: "distinct p'" using mset_eq_imp_distinct_iff by blast
  have "distinct (xs @ p')" using d s Cons.prems by auto
  then show ?case using Cons.IH[of p'] s p' Cons.prems by auto
qed

lemma sorted_wrt_unique:
  assumes tot: "\<forall>a\<in>A. \<forall>b\<in>A. a \<noteq> b \<longrightarrow> (R a b) = (\<not> R b a)"
  shows "sorted_wrt R xs \<Longrightarrow> sorted_wrt R ys \<Longrightarrow> distinct xs \<Longrightarrow> distinct ys
         \<Longrightarrow> set xs = set ys \<Longrightarrow> set xs \<subseteq> A \<Longrightarrow> xs = ys"
proof (induction xs arbitrary: ys)
  case Nil
  then show ?case by simp
next
  case (Cons x xs)
  then obtain y ys' where ys: "ys = y # ys'" by (cases ys) auto
  have "x = y"
  proof (rule ccontr)
    assume ne: "x \<noteq> y"
    then have "x \<in> set ys'" "y \<in> set xs" using Cons.prems ys by auto
    then have "R y x" "R x y" using Cons.prems ys by auto
    moreover have "x \<in> A" "y \<in> A" using Cons.prems ys by auto
    ultimately show False using tot ne by blast
  qed
  moreover have "set xs = set ys'" using Cons.prems ys \<open>x = y\<close> by auto
  ultimately show ?case using Cons ys by auto
qed

lemma Sort_column_above_range:
  "col \<ge> int (length (headers m)) \<Longrightarrow> Sort C m col dir = Inr m"
  by (simp add: Sort_def)

lemma SortFunc_total:
  assumes "\<forall>line\<in>set rows. 0 \<le> col \<and> col < int (length line)"
  shows "\<exists>zs. SortFunc (compareLines C ord col) rows = Inr zs \<and> mset zs = mset rows"
proof -
  let ?g = "\<lambda>a b. (case ord of SortAscendig \<Rightarrow> C (a ! nat col) (b ! nat col)
          | SortDescending \<Rightarrow> C (b ! nat col) (a ! nat col) | SortUnsorted \<Rightarrow> 0)"
  have "\<forall>a\<in>set rows. \<forall>b\<in>set rows. compareLines C ord col a b = Inr (?g a b)"
    using assms by (simp add: compareLines_ok)
  from sortLoop_ok[OF this, of rows "[]"] show ?thesis by (simp add: SortFunc_def)
qed

lemma sortFilteredContent_total:
  assumes "sortOrder m = SortUnsorted \<or>
           (\<forall>line\<in>set (filteredContent m). 0 \<le> sortByCol m \<and> sortByCol m < int (length line))"
  shows "\<exists>zs. sortFilteredContent C m = Inr zs \<and> mset zs = mset (filteredContent m)"
  using assms SortFunc_total[of "filteredContent m" "sortByCol m" C "sortOrder m"]
  by (auto simp: sortFilteredContent_def)

lemma filterContent_ok:
  assumes "\<forall>line\<in>set (contentT m). \<forall>c\<in>set (filterColums m). 0 \<le> c \<and> c < int (length line)"
  shows "filterContent ToLower m =
     Inr (if filterT m = [] then contentT m
          else filter (\<lambda>line. \<exists>c\<in>set (filterColums m).
                 sublist (ToLower (filterT m)) (ToLower (line ! nat c))) (contentT m))"
  using filterLines_ok[OF assms, of ToLower "ToLower (filterT m)" "[]"]
  by (simp add: filterContent_def)

text \<open>
  Claim C4. \<open>Sort(col, dir)\<close> with a column outside the header range is rejected and
  leaves the model unchanged. The guard of \<open>Sort\<close> is \<open>col > len(m.headers)-1\<close>: a
  column at or above the number of headers is rejected (\<open>Sort_column_above_range\<close>), a
  negative one is not. On a table with the one header \<open>Name\<close> and two rows,
  \<open>Sort(-1, SortAscendig)\<close> panics in the comparison (\<open>a[-1]\<close>) and
  \<open>Sort(-1, SortUnsorted)\<close> stores \<open>-1\<close> as the sort column.
\<close>

theorem Sort_negative_column_is_not_rejected:
  "(case NewTableModel [''Name''] [[''b''], [''a'']] of
      Inl e \<Rightarrow> False
    | Inr m0 \<Rightarrow>
        Sort C m0 (- 1) SortAscendig = Inl IndexOutOfRange \<and>
        Sort C m0 (- 1) SortUnsorted = Inr (m0\<lparr>sortByCol := - 1, sortedContent := filteredContent m0\<rparr>) \<and>
        Sort C m0 (- 1) SortUnsorted \<noteq> Inr m0)"
  by (simp add: NewTableModel_def Sort_def sortFilteredContent_def SortFunc_def compareLines_def
      index_def Let_def)

text \<open>
  The sort with a comparison that is consistent on the set \<open>A\<close>: the result is in order,
  no element below one before it. The elements need not be distinct.
\<close>

lemma insertLeft_ordered:
  assumes cmp: "\<forall>a\<in>A. \<forall>b\<in>A. cmp a b = Inr (g a b)"
    and asym: "\<forall>a\<in>A. \<forall>b\<in>A. g a b < 0 \<longrightarrow> \<not> g b a < 0"
    and ntr: "\<forall>a\<in>A. \<forall>b\<in>A. \<forall>c\<in>A. \<not> g a b < 0 \<and> \<not> g b c < 0 \<longrightarrow> \<not> g a c < 0"
    and "x \<in> A" "set ys \<subseteq> A"
    and "sorted_wrt (\<lambda>a b. \<not> g a b < 0) ys"
    and "insertLeft cmp x ys = Inr zs"
  shows "sorted_wrt (\<lambda>a b. \<not> g a b < 0) zs \<and> set zs = insert x (set ys)"
  using assms(4-)
proof (induction ys arbitrary: zs)
  case Nil
  then show ?case by auto
next
  case (Cons y ys)
  have yA: "y \<in> A" and xA: "x \<in> A" and sub: "set ys \<subseteq> A" using Cons.prems by auto
  have c: "cmp x y = Inr (g x y)" using cmp xA yA by auto
  show ?case
  proof (cases "g x y < 0")
    case True
    then obtain zs' where z: "insertLeft cmp x ys = Inr zs'" "zs = y # zs'"
      using Cons.prems c by (auto split: sum.splits)
    have ih: "sorted_wrt (\<lambda>a b. \<not> g a b < 0) zs' \<and> set zs' = insert x (set ys)"
      using Cons.IH[OF xA sub _ z(1)] Cons.prems by auto
    have "\<not> g y x < 0" using asym True xA yA by blast
    then show ?thesis using z ih Cons.prems by auto
  next
    case False
    then have zs: "zs = x # y # ys" using Cons.prems c by auto
    have "\<forall>b\<in>set ys. \<not> g x b < 0"
    proof
      fix b assume b: "b \<in> set ys"
      then have "\<not> g y b < 0" using Cons.prems by auto
      moreover have "b \<in> A" using b sub by auto
      ultimately show "\<not> g x b < 0" using ntr False xA yA by blast
    qed
    then show ?thesis using zs False Cons.prems by auto
  qed
qed

lemma sortLoop_ordered:
  assumes cmp: "\<forall>a\<in>A. \<forall>b\<in>A. cmp a b = Inr (g a b)"
    and asym: "\<forall>a\<in>A. \<forall>b\<in>A. g a b < 0 \<longrightarrow> \<not> g b a < 0"
    and ntr: "\<forall>a\<in>A. \<forall>b\<in>A. \<forall>c\<in>A. \<not> g a b < 0 \<and> \<not> g b c < 0 \<longrightarrow> \<not> g a c < 0"
    and "set xs \<subseteq> A" "set pre \<subseteq> A"
    and "sorted_wrt (\<lambda>a b. \<not> g a b < 0) pre"
    and "sortLoop cmp xs pre = Inr zs"
  shows "sorted_wrt (\<lambda>a b. \<not> g b a < 0) zs"
  using assms(4-)
proof (induction xs arbitrary: pre)
  case Nil
  then show ?case by (auto simp: sorted_wrt_rev)
next
  case (Cons x xs)
  then obtain p' where p': "insertLeft cmp x pre = Inr p'" "sortLoop cmp xs p' = Inr zs"
    by (auto split: sum.splits)
  have s: "sorted_wrt (\<lambda>a b. \<not> g a b < 0) p' \<and> set p' = insert x (set pre)"
    using insertLeft_ordered[OF cmp asym ntr _ _ _ p'(1)] Cons.prems by auto
  then have "set p' \<subseteq> A" using Cons.prems by auto
  then show ?case using Cons.IH[of p'] s p'(2) Cons.prems by auto
qed

lemma SortFunc_ordered:
  fixes C :: "string \<Rightarrow> string \<Rightarrow> int"
  assumes rows: "\<forall>line\<in>set rows. 0 \<le> col \<and> col < int (length line)"
    and asym: "\<forall>x y. C x y < 0 \<longrightarrow> \<not> C y x < 0"
    and ntr: "\<forall>x y z. \<not> C x y < 0 \<and> \<not> C y z < 0 \<longrightarrow> \<not> C x z < 0"
    and s: "SortFunc (compareLines C ord col) rows = Inr zs"
  shows "(ord = SortAscendig \<longrightarrow> sorted_wrt (\<lambda>a b. \<not> C (b ! nat col) (a ! nat col) < 0) zs) \<and>
         (ord = SortDescending \<longrightarrow> sorted_wrt (\<lambda>a b. \<not> C (a ! nat col) (b ! nat col) < 0) zs)"
proof (intro conjI impI)
  assume o: "ord = SortAscendig"
  let ?g = "\<lambda>a b. C (a ! nat col) (b ! nat col)"
  have cmp: "\<forall>a\<in>set rows. \<forall>b\<in>set rows. compareLines C ord col a b = Inr (?g a b)"
    using rows o by (simp add: compareLines_ok)
  have a: "\<forall>a\<in>set rows. \<forall>b\<in>set rows. ?g a b < 0 \<longrightarrow> \<not> ?g b a < 0" using asym by blast
  have n: "\<forall>a\<in>set rows. \<forall>b\<in>set rows. \<forall>c\<in>set rows. \<not> ?g a b < 0 \<and> \<not> ?g b c < 0 \<longrightarrow> \<not> ?g a c < 0"
    using ntr by blast
  show "sorted_wrt (\<lambda>a b. \<not> C (b ! nat col) (a ! nat col) < 0) zs"
    using sortLoop_ordered[OF cmp a n, of rows "[]" zs] s by (simp add: SortFunc_def)
next
  assume o: "ord = SortDescending"
  let ?g = "\<lambda>a b. C (b ! nat col) (a ! nat col)"
  have cmp: "\<forall>a\<in>set rows. \<forall>b\<in>set rows. compareLines C ord col a b = Inr (?g a b)"
    using rows o by (simp add: compareLines_ok)
  have a: "\<forall>a\<in>set rows. \<forall>b\<in>set rows. ?g a b < 0 \<longrightarrow> \<not> ?g b a < 0" using asym by blast
  have n: "\<forall>a\<in>set rows. \<forall>b\<in>set rows. \<forall>c\<in>set rows. \<not> ?g a b < 0 \<and> \<not> ?g b c < 0 \<longrightarrow> \<not> ?g a c < 0"
    using ntr by blast
  show "sorted_wrt (\<lambda>a b. \<not> C (a ! nat col) (b ! nat col) < 0) zs"
    using sortLoop_ordered[OF cmp a n, of rows "[]" zs] s by (simp add: SortFunc_def)
qed

text \<open>
  Claim C6. On a table whose rows all have the filter columns (and the sort column, when a
  sort is set), \<open>SetFilter(text)\<close> returns. Its filtered rows are the rows of the content,
  in their order, in which some filter column contains the lower-cased text once lower-cased
  itself, and all rows of the content when the text is empty. Its sorted rows are the sort
  that \<open>sortFilteredContent\<close> makes of these filtered rows: a rearrangement of them, the
  filtered rows themselves when no sort is set, and, when the collator's comparison is
  consistent (never both \<open>x\<close> below \<open>y\<close> and \<open>y\<close> below \<open>x\<close>; if \<open>x\<close> is not below \<open>y\<close>
  and \<open>y\<close> not below \<open>z\<close> then \<open>x\<close> is not below \<open>z\<close>), in the order of the sort column:
  ascending, no row is below a row before it; descending, no row is below a row after it.
  \<open>scrolledTop\<close> and \<open>selectedLine\<close> are \<open>0\<close>; the filter is the text; the other fields
  keep their values.
\<close>

theorem SetFilter_selects_matching_rows:
  fixes C :: "string \<Rightarrow> string \<Rightarrow> int"
  assumes cols: "\<forall>line\<in>set (contentT m). \<forall>c\<in>set (filterColums m). 0 \<le> c \<and> c < int (length line)"
    and sortable: "sortOrder m = SortUnsorted \<or>
           (\<forall>line\<in>set (contentT m). 0 \<le> sortByCol m \<and> sortByCol m < int (length line))"
  shows "\<exists>m'. SetFilter ToLower C m text = Inr m' \<and>
           filteredContent m' =
             (if text = [] then contentT m
              else filter (\<lambda>line. \<exists>c\<in>set (filterColums m).
                     sublist (ToLower text) (ToLower (line ! nat c))) (contentT m)) \<and>
           sortFilteredContent C (m\<lparr>filteredContent := filteredContent m'\<rparr>) = Inr (sortedContent m') \<and>
           mset (sortedContent m') = mset (filteredContent m') \<and>
           (sortOrder m = SortUnsorted \<longrightarrow> sortedContent m' = filteredContent m') \<and>
           ((\<forall>x y. C x y < 0 \<longrightarrow> \<not> C y x < 0) \<and>
            (\<forall>x y z. \<not> C x y < 0 \<and> \<not> C y z < 0 \<longrightarrow> \<not> C x z < 0) \<longrightarrow>
              (sortOrder m = SortAscendig \<longrightarrow>
                 sorted_wrt (\<lambda>a b. \<not> C (b ! nat (sortByCol m)) (a ! nat (sortByCol m)) < 0)
                   (sortedContent m')) \<and>
              (sortOrder m = SortDescending \<longrightarrow>
                 sorted_wrt (\<lambda>a b. \<not> C (a ! nat (sortByCol m)) (b ! nat (sortByCol m)) < 0)
                   (sortedContent m'))) \<and>
           scrolledTopT m' = 0 \<and> selectedLineT m' = 0 \<and> filterT m' = text \<and>
           contentT m' = contentT m \<and> sortByCol m' = sortByCol m \<and> sortOrder m' = sortOrder m \<and>
           filterColums m' = filterColums m \<and> headers m' = headers m \<and>
           widthT m' = widthT m \<and> heightT m' = heightT m"
proof -
  let ?m1 = "m\<lparr>filterT := text\<rparr>"
  let ?f = "(if text = [] then contentT m
              else filter (\<lambda>line. \<exists>c\<in>set (filterColums m).
                     sublist (ToLower text) (ToLower (line ! nat c))) (contentT m))"
  have f: "filterContent ToLower ?m1 = Inr ?f"
    using filterContent_ok[of ?m1 ToLower] cols by simp
  let ?m2 = "?m1\<lparr>filteredContent := ?f\<rparr>"
  have sub: "set ?f \<subseteq> set (contentT m)" by auto
  have able: "sortOrder ?m2 = SortUnsorted \<or>
           (\<forall>line\<in>set (filteredContent ?m2). 0 \<le> sortByCol ?m2 \<and> sortByCol ?m2 < int (length line))"
    using sortable sub by auto
  from sortFilteredContent_total[OF able, of C]
  obtain zs where zs: "sortFilteredContent C ?m2 = Inr zs" "mset zs = mset ?f" by auto
  have same: "sortFilteredContent C (m\<lparr>filteredContent := ?f\<rparr>) = sortFilteredContent C ?m2"
    by (simp add: sortFilteredContent_def)
  have un: "sortOrder m = SortUnsorted \<longrightarrow> zs = ?f"
  proof
    assume "sortOrder m = SortUnsorted"
    then have "sortFilteredContent C ?m2 = Inr ?f" by (simp add: sortFilteredContent_def)
    with zs(1) show "zs = ?f" by simp
  qed
  have ord: "(\<forall>x y. C x y < 0 \<longrightarrow> \<not> C y x < 0) \<and>
            (\<forall>x y z. \<not> C x y < 0 \<and> \<not> C y z < 0 \<longrightarrow> \<not> C x z < 0) \<longrightarrow>
              (sortOrder m = SortAscendig \<longrightarrow>
                 sorted_wrt (\<lambda>a b. \<not> C (b ! nat (sortByCol m)) (a ! nat (sortByCol m)) < 0) zs) \<and>
              (sortOrder m = SortDescending \<longrightarrow>
                 sorted_wrt (\<lambda>a b. \<not> C (a ! nat (sortByCol m)) (b ! nat (sortByCol m)) < 0) zs)"
  proof (intro impI conjI)
    assume c: "(\<forall>x y. C x y < 0 \<longrightarrow> \<not> C y x < 0) \<and>
            (\<forall>x y z. \<not> C x y < 0 \<and> \<not> C y z < 0 \<longrightarrow> \<not> C x z < 0)"
      and o: "sortOrder m = SortAscendig"
    from c have asym: "\<forall>x y. C x y < 0 \<longrightarrow> \<not> C y x < 0" by (rule conjunct1)
    from c have ntr: "\<forall>x y z. \<not> C x y < 0 \<and> \<not> C y z < 0 \<longrightarrow> \<not> C x z < 0" by (rule conjunct2)
    have "\<forall>line\<in>set (contentT m). 0 \<le> sortByCol m \<and> sortByCol m < int (length line)"
      using sortable o by simp
    then have rows: "\<forall>line\<in>set ?f. 0 \<le> sortByCol m \<and> sortByCol m < int (length line)"
      using sub by blast
    have s: "SortFunc (compareLines C SortAscendig (sortByCol m)) ?f = Inr zs"
      using zs(1) o by (simp add: sortFilteredContent_def)
    from SortFunc_ordered[OF rows asym ntr s]
    show "sorted_wrt (\<lambda>a b. \<not> C (b ! nat (sortByCol m)) (a ! nat (sortByCol m)) < 0) zs"
      by simp
  next
    assume c: "(\<forall>x y. C x y < 0 \<longrightarrow> \<not> C y x < 0) \<and>
            (\<forall>x y z. \<not> C x y < 0 \<and> \<not> C y z < 0 \<longrightarrow> \<not> C x z < 0)"
      and o: "sortOrder m = SortDescending"
    from c have asym: "\<forall>x y. C x y < 0 \<longrightarrow> \<not> C y x < 0" by (rule conjunct1)
    from c have ntr: "\<forall>x y z. \<not> C x y < 0 \<and> \<not> C y z < 0 \<longrightarrow> \<not> C x z < 0" by (rule conjunct2)
    have "\<forall>line\<in>set (contentT m). 0 \<le> sortByCol m \<and> sortByCol m < int (length line)"
      using sortable o by simp
    then have rows: "\<forall>line\<in>set ?f. 0 \<le> sortByCol m \<and> sortByCol m < int (length line)"
      using sub by blast
    have s: "SortFunc (compareLines C SortDescending (sortByCol m)) ?f = Inr zs"
      using zs(1) o by (simp add: sortFilteredContent_def)
    from SortFunc_ordered[OF rows asym ntr s]
    show "sorted_wrt (\<lambda>a b. \<not> C (a ! nat (sortByCol m)) (b ! nat (sortByCol m)) < 0) zs"
      by simp
  qed
  let ?m' = "?m2\<lparr>sortedContent := zs, scrolledTopT := 0, selectedLineT := 0\<rparr>"
  have r: "SetFilter ToLower C m text = Inr ?m'"
    using f zs by (simp add: SetFilter_def Let_def)
  have fields: "filteredContent ?m' = ?f" "sortedContent ?m' = zs" "scrolledTopT ?m' = 0"
      "selectedLineT ?m' = 0" "filterT ?m' = text" "contentT ?m' = contentT m"
      "sortByCol ?m' = sortByCol m" "sortOrder ?m' = sortOrder m"
      "filterColums ?m' = filterColums m" "headers ?m' = headers m"
      "widthT ?m' = widthT m" "heightT ?m' = heightT m"
    by simp_all
  show ?thesis
  proof (intro exI[of _ ?m'] conjI)
    show "SetFilter ToLower C m text = Inr ?m'" by (rule r)
    show "filteredContent ?m' = ?f" by simp
    show "sortFilteredContent C (m\<lparr>filteredContent := filteredContent ?m'\<rparr>) = Inr (sortedContent ?m')"
      using zs(1) same by simp
    show "mset (sortedContent ?m') = mset (filteredContent ?m')" using zs(2) by simp
    show "sortOrder m = SortUnsorted \<longrightarrow> sortedContent ?m' = filteredContent ?m'"
      using un by simp
    show "(\<forall>x y. C x y < 0 \<longrightarrow> \<not> C y x < 0) \<and>
            (\<forall>x y z. \<not> C x y < 0 \<and> \<not> C y z < 0 \<longrightarrow> \<not> C x z < 0) \<longrightarrow>
              (sortOrder m = SortAscendig \<longrightarrow>
                 sorted_wrt (\<lambda>a b. \<not> C (b ! nat (sortByCol m)) (a ! nat (sortByCol m)) < 0)
                   (sortedContent ?m')) \<and>
              (sortOrder m = SortDescending \<longrightarrow>
                 sorted_wrt (\<lambda>a b. \<not> C (a ! nat (sortByCol m)) (b ! nat (sortByCol m)) < 0)
                   (sortedContent ?m'))"
      using ord unfolding fields(2) .
  qed (simp_all)
qed

theorem SetFilter_selects_matching_rows_witness:
  "\<exists>m'. SetFilter (map (\<lambda>c. if c = CHR ''A'' then CHR ''a'' else if c = CHR ''C'' then CHR ''c'' else c))
            (\<lambda>x y. int (length x) - int (length y))
            \<lparr>widthT = 40, heightT = 10, headers = [''Name'', ''Age''],
             contentT = [[''Cathy'', ''40''], [''bob'', ''25''], [''Al'', ''30'']],
             selectedLineT = 2, scrolledTopT = 1, filterT = ''x'', filterColums = [0],
             filteredContent = [], sortByCol = 0, sortOrder = SortAscendig, sortedContent = []\<rparr>
            ''A'' = Inr m' \<and>
         filteredContent m' = [[''Cathy'', ''40''], [''Al'', ''30'']] \<and>
         sortedContent m' = [[''Al'', ''30''], [''Cathy'', ''40'']] \<and>
         scrolledTopT m' = 0 \<and> selectedLineT m' = 0"
proof -
  define L where "L = map (\<lambda>c. if c = CHR ''A'' then CHR ''a'' else if c = CHR ''C'' then CHR ''c'' else c)"
  define C where "C = (\<lambda>x y. int (length (x::string)) - int (length (y::string)))"
  define T where "T = \<lparr>widthT = 40, heightT = 10, headers = [''Name'', ''Age''],
             contentT = [[''Cathy'', ''40''], [''bob'', ''25''], [''Al'', ''30'']],
             selectedLineT = 2, scrolledTopT = 1, filterT = ''x'', filterColums = [0],
             filteredContent = [], sortByCol = 0, sortOrder = SortAscendig, sortedContent = []\<rparr>"
  have cols: "\<forall>line\<in>set (contentT T). \<forall>c\<in>set (filterColums T). 0 \<le> c \<and> c < int (length line)"
    by (simp add: T_def)
  have sortable: "sortOrder T = SortUnsorted \<or>
           (\<forall>line\<in>set (contentT T). 0 \<le> sortByCol T \<and> sortByCol T < int (length line))"
    by (simp add: T_def)
  from SetFilter_selects_matching_rows[OF cols sortable, of L C "''A''"]
  obtain m' where r: "SetFilter L C T ''A'' = Inr m'"
    and f: "filteredContent m' =
             (if ''A'' = [] then contentT T
              else filter (\<lambda>line. \<exists>c\<in>set (filterColums T).
                     sublist (L ''A'') (L (line ! nat c))) (contentT T))"
    and s: "sortFilteredContent C (T\<lparr>filteredContent := filteredContent m'\<rparr>) = Inr (sortedContent m')"
    and z: "scrolledTopT m' = 0" "selectedLineT m' = 0"
    by (elim exE conjE)
  have f': "filteredContent m' = [[''Cathy'', ''40''], [''Al'', ''30'']]"
    unfolding f by (simp add: T_def L_def sublist_Cons_right)
  have "sortFilteredContent C (T\<lparr>filteredContent := [[''Cathy'', ''40''], [''Al'', ''30'']]\<rparr>)
          = Inr [[''Al'', ''30''], [''Cathy'', ''40'']]"
    by (simp add: sortFilteredContent_def SortFunc_def compareLines_def index_def T_def C_def)
  with s have s': "sortedContent m' = [[''Al'', ''30''], [''Cathy'', ''40'']]"
    unfolding f' by simp
  from r f' s' z show ?thesis unfolding L_def C_def T_def by blast
qed

text \<open>
  Claim C6 as the specification words it, for every table: a row that lacks a filter column
  makes \<open>filterContent\<close> panic (\<open>line[colN]\<close>), so \<open>SetFilter\<close> does not return. With the
  headers \<open>Name\<close> and \<open>Age\<close> both columns are filter columns, and the row \<open>bob\<close> has
  only the first.
\<close>

theorem SetFilter_short_row_counterexample:
  "(case NewTableModel [''Name'', ''Age''] [[''Alice'', ''30''], [''bob'']] of
      Inl e \<Rightarrow> False
    | Inr m0 \<Rightarrow>
        filterColums m0 = [0, 1] \<and>
        SetFilter (\<lambda>s. s) (\<lambda>x y. 0) m0 ''3'' = Inl IndexOutOfRange)"
  by (simp add: NewTableModel_def SetFilter_def filterContent_def index_def Let_def upt_rec)

lemma SortFunc_sorted:
  fixes C :: "string \<Rightarrow> string \<Rightarrow> int"
  assumes rows: "\<forall>line\<in>set rows. 0 \<le> col \<and> col < int (length line)"
    and dist: "distinct (map (\<lambda>line. line ! nat col) rows)"
    and tot: "\<forall>x\<in>(\<lambda>line. line ! nat col) ` set rows. \<forall>y\<in>(\<lambda>line. line ! nat col) ` set rows.
                x \<noteq> y \<longrightarrow> (C x y < 0) = (\<not> C y x < 0)"
    and trans: "\<forall>x\<in>(\<lambda>line. line ! nat col) ` set rows. \<forall>y\<in>(\<lambda>line. line ! nat col) ` set rows.
                \<forall>z\<in>(\<lambda>line. line ! nat col) ` set rows. C x y < 0 \<and> C y z < 0 \<longrightarrow> C x z < 0"
    and g: "g = (\<lambda>a b. C (a ! nat col) (b ! nat col))"
  shows "\<exists>up. SortFunc (compareLines C SortAscendig col) rows = Inr up \<and>
              sorted_wrt (\<lambda>a b. g a b < 0) up \<and> set up = set rows \<and> distinct up \<and>
              SortFunc (compareLines C SortDescending col) rows = Inr (rev up)"
proof -
  let ?A = "set rows"
  let ?k = "\<lambda>line. line ! nat col"
  have inj: "inj_on ?k ?A" and drows: "distinct rows"
    using dist by (auto simp: distinct_map)
  have ne: "\<And>a b. a \<in> ?A \<Longrightarrow> b \<in> ?A \<Longrightarrow> a \<noteq> b \<Longrightarrow> ?k a \<noteq> ?k b"
    using inj by (auto dest: inj_onD)
  have cmpA: "\<forall>a\<in>?A. \<forall>b\<in>?A. compareLines C SortAscendig col a b = Inr (g a b)"
    using rows by (simp add: compareLines_ok g)
  have cmpD: "\<forall>a\<in>?A. \<forall>b\<in>?A. compareLines C SortDescending col a b = Inr (g b a)"
    using rows by (simp add: compareLines_ok g)
  have totA: "\<forall>a\<in>?A. \<forall>b\<in>?A. a \<noteq> b \<longrightarrow> (g a b < 0) = (\<not> g b a < 0)"
    using tot ne unfolding g by blast
  have totD: "\<forall>a\<in>?A. \<forall>b\<in>?A. a \<noteq> b \<longrightarrow> (g b a < 0) = (\<not> g a b < 0)"
    using totA by blast
  have transA: "\<forall>a\<in>?A. \<forall>b\<in>?A. \<forall>c\<in>?A. g a b < 0 \<and> g b c < 0 \<longrightarrow> g a c < 0"
    using trans unfolding g by blast
  have transD: "\<forall>a\<in>?A. \<forall>b\<in>?A. \<forall>c\<in>?A. g b a < 0 \<and> g c b < 0 \<longrightarrow> g c a < 0"
    using transA by blast
  obtain up where up: "sortLoop (compareLines C SortAscendig col) rows [] = Inr up"
      "sorted_wrt (\<lambda>a b. g a b < 0) up" "set up = set rows" "distinct up"
    using sortLoop_sorted[OF cmpA totA transA, of rows "[]"] drows by auto
  obtain dn where dn: "sortLoop (compareLines C SortDescending col) rows [] = Inr dn"
      "sorted_wrt (\<lambda>a b. g b a < 0) dn" "set dn = set rows" "distinct dn"
    using sortLoop_sorted[OF cmpD totD transD, of rows "[]"] drows by auto
  have "sorted_wrt (\<lambda>a b. g a b < 0) (rev dn)"
    using dn(2) by (simp add: sorted_wrt_rev)
  then have "rev dn = up"
    using sorted_wrt_unique[where R="\<lambda>a b. g a b < 0" and A="set rows" and xs="rev dn" and ys=up, OF totA]
      up dn by auto
  then have "dn = rev up" by auto
  then show ?thesis using up dn by (auto simp: SortFunc_def)
qed




section \<open>Facts about the line list\<close>

subsection \<open>The pieces of a line\<close>

declare chunks.simps [simp del]

lemma chunks_short: "length w \<le> n \<Longrightarrow> chunks n w = [w]"
  by (subst chunks.simps) simp

lemma chunks_long: "0 < n \<Longrightarrow> n < length w \<Longrightarrow> chunks n w = take n w # chunks n (drop n w)"
  by (subst chunks.simps) simp

lemma concat_chunks: "concat (chunks n w) = w"
proof (induction n w rule: chunks.induct)
  case (1 n w)
  show ?case
  proof (cases "n = 0 \<or> length w \<le> n")
    case True
    then show ?thesis by (subst chunks.simps) simp
  next
    case False
    then have "concat (chunks n (drop n w)) = drop n w" using 1 by simp
    with False show ?thesis by (subst chunks.simps) simp
  qed
qed

lemma chunks_not_Nil: "chunks n w \<noteq> []"
  by (subst chunks.simps) simp

lemma chunks_piece_length:
  "0 < n \<Longrightarrow> \<forall>piece\<in>set (butlast (chunks n w)). length piece = n"
proof (induction n w rule: chunks.induct)
  case (1 n w)
  show ?case
  proof (cases "length w \<le> n")
    case True
    then show ?thesis by (simp add: chunks_short)
  next
    case False
    then have ih: "\<forall>piece\<in>set (butlast (chunks n (drop n w))). length piece = n"
      using 1 by simp
    have "chunks n w = take n w # chunks n (drop n w)"
      using False 1(2) by (simp add: chunks_long)
    then show ?thesis using ih False by (simp add: chunks_not_Nil)
  qed
qed

lemma chunks_last_length:
  "0 < n \<Longrightarrow> length (last (chunks n w)) \<le> n \<and> (w \<noteq> [] \<longrightarrow> last (chunks n w) \<noteq> [])"
proof (induction n w rule: chunks.induct)
  case (1 n w)
  show ?case
  proof (cases "length w \<le> n")
    case True
    then show ?thesis by (simp add: chunks_short)
  next
    case False
    then have ih: "length (last (chunks n (drop n w))) \<le> n \<and>
        (drop n w \<noteq> [] \<longrightarrow> last (chunks n (drop n w)) \<noteq> [])"
      using 1 by simp
    have "chunks n w = take n w # chunks n (drop n w)"
      using False 1(2) by (simp add: chunks_long)
    then show ?thesis using ih False by (simp add: chunks_not_Nil)
  qed
qed

subsection \<open>The hard split\<close>

lemma splitLoop_chunks:
  assumes wd: "2 < wd"
  shows "0 \<le> i \<Longrightarrow> i < int (length w) - (wd - 2) \<Longrightarrow>
         \<exists>zf ws. splitLoop wd w i z acc = Some (Inr (zf, ws)) \<and> 0 \<le> zf \<and>
                 zf + wd - 2 \<le> int (length w) \<and>
                 ws @ [drop (nat (zf + wd - 2)) w] = acc @ chunks (nat (wd - 2)) (drop (nat i) w)"
proof (induction "length w - nat i" arbitrary: i z acc rule: less_induct)
  case less
  let ?n = "nat (wd - 2)"
  let ?piece = "take ?n (drop (nat i) w)"
  have n: "0 < ?n" "int ?n = wd - 2" using wd by auto
  have sl: "slice w i (i + wd - 2) = Inr ?piece"
    using less.prems wd by (simp add: slice_def)
  have step: "splitLoop wd w i z acc = splitLoop wd w (i + (wd - 2)) i (acc @ [?piece])"
    using less.prems sl by (subst splitLoop.simps) simp
  have long: "chunks ?n (drop (nat i) w) = ?piece # chunks ?n (drop (nat (i + wd - 2)) w)"
  proof -
    have "?n < length (drop (nat i) w)" using less.prems wd by simp
    then have "chunks ?n (drop (nat i) w) = ?piece # chunks ?n (drop ?n (drop (nat i) w))"
      using n by (simp add: chunks_long)
    moreover have "?n + nat i = nat (i + wd - 2)" using less.prems wd by simp
    ultimately show ?thesis by simp
  qed
  show ?case
  proof (cases "i + (wd - 2) < int (length w) - (wd - 2)")
    case True
    have m: "length w - nat (i + (wd - 2)) < length w - nat i"
      using less.prems wd by simp
    have "0 \<le> i + (wd - 2)" using less.prems wd by simp
    from less.hyps[OF m this True, of i "acc @ [?piece]"]
    obtain zf ws where r: "splitLoop wd w (i + (wd - 2)) i (acc @ [?piece]) = Some (Inr (zf, ws))"
        "0 \<le> zf" "zf + wd - 2 \<le> int (length w)"
        "ws @ [drop (nat (zf + wd - 2)) w] =
           (acc @ [?piece]) @ chunks ?n (drop (nat (i + (wd - 2))) w)"
      by blast
    have e: "i + (wd - 2) = i + wd - 2" by simp
    show ?thesis using r step long unfolding e by simp
  next
    case False
    have stop: "splitLoop wd w (i + (wd - 2)) i (acc @ [?piece]) = Some (Inr (i, acc @ [?piece]))"
      using False by (subst splitLoop.simps) simp
    have "length (drop (nat (i + wd - 2)) w) \<le> ?n" using False less.prems wd by simp
    then have "chunks ?n (drop (nat (i + wd - 2)) w) = [drop (nat (i + wd - 2)) w]"
      by (rule chunks_short)
    then show ?thesis using step stop long less.prems by simp
  qed
qed

lemma splitLine_chunks:
  assumes wd: "2 < wd"
  shows "splitLine wd w acc = Some (Inr (acc @ chunks (nat (wd - 2)) w))"
proof (cases "int (length w) - 1 \<ge> wd - 2")
  case True
  then have "0 < int (length w) - (wd - 2)" by simp
  from splitLoop_chunks[OF wd _ this, of 0 acc]
  obtain zf ws where r: "splitLoop wd w 0 0 acc = Some (Inr (zf, ws))" "0 \<le> zf"
      "zf + wd - 2 \<le> int (length w)"
      "ws @ [drop (nat (zf + wd - 2)) w] = acc @ chunks (nat (wd - 2)) w"
    by auto
  have "sliceFrom w (zf + wd - 2) = Inr (drop (nat (zf + wd - 2)) w)"
    using r wd by (simp add: sliceFrom_def)
  then show ?thesis using True r by (simp add: splitLine_def)
next
  case False
  then have "length w \<le> nat (wd - 2)" by simp
  then show ?thesis using False by (simp add: splitLine_def chunks_short)
qed

lemma splitLines_chunks:
  "2 < wd \<Longrightarrow> splitLines wd ws acc = Some (Inr (acc @ concat (map (chunks (nat (wd - 2))) ws)))"
  by (induction ws arbitrary: acc) (simp_all add: splitLine_chunks)

lemma wrapLine_chunks:
  "2 < wd \<Longrightarrow> wrapLine wordwrap wd line
     = Some (Inr (concat (map (chunks (nat (wd - 2))) (Split (wordwrap line (wd - 2))))))"
  by (simp add: wrapLine_def splitLines_chunks)

lemma wrapped_chunks:
  "2 < wd \<Longrightarrow> wrapped wordwrap wd line
     = concat (map (chunks (nat (wd - 2))) (Split (wordwrap line (wd - 2))))"
  by (simp add: wrapped_def wrapLine_chunks)

lemma wrapLine_wrapped: "2 < wd \<Longrightarrow> wrapLine wordwrap wd line = Some (Inr (wrapped wordwrap wd line))"
  by (simp add: wrapped_def wrapLine_chunks)

lemma Split_not_Nil: "Split s \<noteq> []"
  by (induction s) auto

lemma concat_Split: "concat (Split s) = filter (\<lambda>c. c \<noteq> CHR 0x0A) s"
proof (induction s)
  case Nil
  then show ?case by simp
next
  case (Cons c cs)
  have "concat (hd (Split cs) # tl (Split cs)) = concat (Split cs)"
    using Split_not_Nil[of cs] by simp
  then show ?case using Cons by simp
qed

lemma wrapped_not_Nil: "2 < wd \<Longrightarrow> wrapped wordwrap wd line \<noteq> []"
proof -
  assume wd: "2 < wd"
  obtain wl ws where s: "Split (wordwrap line (wd - 2)) = wl # ws"
    using Split_not_Nil[of "wordwrap line (wd - 2)"] by (cases "Split (wordwrap line (wd - 2))") auto
  show ?thesis using wd s by (simp add: wrapped_chunks chunks_not_Nil)
qed

lemma concat_wrapped:
  "2 < wd \<Longrightarrow> concat (wrapped wordwrap wd line) = filter (\<lambda>c. c \<noteq> CHR 0x0A) (wordwrap line (wd - 2))"
proof -
  assume wd: "2 < wd"
  have "concat (concat (map (chunks (nat (wd - 2))) ws)) = concat ws" for ws :: "string list"
    by (induction ws) (simp_all add: concat_chunks)
  then show ?thesis using wd by (simp add: wrapped_chunks concat_Split)
qed

text \<open>Below width 2 the first slice of the hard split is out of bounds.\<close>

lemma splitLine_panics: "wd \<le> 1 \<Longrightarrow> splitLine wd w acc = Some (Inl SliceBoundsOutOfRange)"
  by (simp add: splitLine_def) (subst splitLoop.simps, simp add: slice_def)

lemma wrapLine_panics: "wd \<le> 1 \<Longrightarrow> wrapLine wordwrap wd line = Some (Inl SliceBoundsOutOfRange)"
proof -
  assume wd: "wd \<le> 1"
  obtain wl ws where s: "Split (wordwrap line (wd - 2)) = wl # ws"
    using Split_not_Nil[of "wordwrap line (wd - 2)"] by (cases "Split (wordwrap line (wd - 2))") auto
  show ?thesis using wd s by (simp add: wrapLine_def splitLine_panics)
qed

subsection \<open>The index of display lines\<close>

lemma indexLines_fields:
  "indexLines k p is m =
     m\<lparr>selectableParsedLinesMap :=
         (\<lambda>x. if x \<in> (\<lambda>i. int i + p) ` set is then Some k else selectableParsedLinesMap m x),
       parsedSelectableLinesMap :=
         (if is = [] then parsedSelectableLinesMap m
          else (parsedSelectableLinesMap m)(k \<mapsto>
                 linesOf (parsedSelectableLinesMap m) k @ map (\<lambda>i. int i + p) is))\<rparr>"
proof (induction "is" arbitrary: m)
  case Nil
  then show ?case by simp
next
  case (Cons i "is")
  show ?case
    by (simp add: Cons linesOf_def fun_eq_iff)
qed

lemma in_span_image: "(x \<in> (\<lambda>i. int i + p) ` {0..<n}) = (p \<le> x \<and> x < p + int n)"
proof
  assume "x \<in> (\<lambda>i. int i + p) ` {0..<n}"
  then show "p \<le> x \<and> x < p + int n" by auto
next
  assume a: "p \<le> x \<and> x < p + int n"
  then have "nat (x - p) \<in> {0..<n}" "x = int (nat (x - p)) + p" by auto
  then show "x \<in> (\<lambda>i. int i + p) ` {0..<n}" by blast
qed

lemma span_map: "map (\<lambda>i. int i + p) [0..<n] = span p n"
  by (simp add: span_def add.commute)

lemma addLine_fields:
  "addLine render k p ws2 m =
     m\<lparr>selectableParsedLinesMap :=
         (\<lambda>x. if p \<le> x \<and> x < p + int (length ws2) then Some k else selectableParsedLinesMap m x),
       parsedSelectableLinesMap :=
         (if ws2 = [] then parsedSelectableLinesMap m
          else (parsedSelectableLinesMap m)(k \<mapsto>
                 linesOf (parsedSelectableLinesMap m) k @ span p (length ws2))),
       selectedParsedLines :=
         (if k = selectedLine m then selectedParsedLines m @ span p (length ws2)
          else selectedParsedLines m),
       parsedContent :=
         parsedContent m @ (if k = selectedLine m then map render ws2 else ws2)\<rparr>"
  by (simp add: addLine_def indexLines_fields in_span_image span_map Let_def)
     (simp add: span_def)

lemma addLine_frame [simp]:
  "width (addLine render k p ws2 m) = width m"
  "height (addLine render k p ws2 m) = height m"
  "content (addLine render k p ws2 m) = content m"
  "selectedLine (addLine render k p ws2 m) = selectedLine m"
  "scrolledTop (addLine render k p ws2 m) = scrolledTop m"
  by (simp_all add: addLine_fields)

lemma addLines_frame [simp]:
  "width (addLines L render k p rows m) = width m"
  "height (addLines L render k p rows m) = height m"
  "content (addLines L render k p rows m) = content m"
  "selectedLine (addLines L render k p rows m) = selectedLine m"
  "scrolledTop (addLines L render k p rows m) = scrolledTop m"
  by (induction rows arbitrary: k p m; simp)+

lemma parseLines_addLines:
  "\<forall>row\<in>set rows. wrapLine wordwrap (width m) row = Some (Inr (L row)) \<Longrightarrow>
   parseLines wordwrap render k p rows m = Some (Inr (addLines L render k p rows m))"
  by (induction rows arbitrary: k p m) simp_all

lemma lineTotal_Nil [simp]: "lineTotal L [] = 0"
  by (simp add: lineTotal_def)

lemma lineTotal_Cons [simp]: "lineTotal L (row # rows) = length (L row) + lineTotal L rows"
  by (simp add: lineTotal_def)

lemma lineTotal_append [simp]: "lineTotal L (xs @ ys) = lineTotal L xs + lineTotal L ys"
  by (simp add: lineTotal_def)

lemma lineTotal_take_le: "lineTotal L (take j rows) \<le> lineTotal L rows"
proof -
  have "lineTotal L (take j rows @ drop j rows) = lineTotal L (take j rows) + lineTotal L (drop j rows)"
    by (rule lineTotal_append)
  then show ?thesis by simp
qed

lemma lineTotal_take_Suc:
  "j < length rows \<Longrightarrow> lineTotal L (take (Suc j) rows) = lineTotal L (take j rows) + length (L (rows ! j))"
  by (simp add: take_Suc_conv_app_nth)

lemma addLines_length:
  "length (parsedContent (addLines L render k p rows m)) = length (parsedContent m) + lineTotal L rows"
  by (induction rows arbitrary: k p m) (simp_all add: addLine_fields)

lemma addLines_lineMap_outside:
  "x < p \<or> p + int (lineTotal L rows) \<le> x \<Longrightarrow>
   selectableParsedLinesMap (addLines L render k p rows m) x = selectableParsedLinesMap m x"
proof (induction rows arbitrary: k p m)
  case Nil
  then show ?case by simp
next
  case (Cons row rows)
  have "selectableParsedLinesMap (addLines L render (k + 1) (p + int (length (L row))) rows
          (addLine render k p (L row) m)) x
        = selectableParsedLinesMap (addLine render k p (L row) m) x"
    using Cons.prems by (intro Cons.IH) auto
  then show ?case using Cons.prems by (auto simp: addLine_fields)
qed

lemma addLines_lineMap_inside:
  "j < length rows \<Longrightarrow> i < length (L (rows ! j)) \<Longrightarrow>
   selectableParsedLinesMap (addLines L render k p rows m) (p + int (lineTotal L (take j rows)) + int i)
     = Some (k + int j)"
proof (induction rows arbitrary: k p m j)
  case Nil
  then show ?case by simp
next
  case (Cons row rows)
  show ?case
  proof (cases j)
    case 0
    then have "selectableParsedLinesMap (addLines L render (k + 1) (p + int (length (L row))) rows
          (addLine render k p (L row) m)) (p + int i)
        = selectableParsedLinesMap (addLine render k p (L row) m) (p + int i)"
      using Cons.prems by (intro addLines_lineMap_outside) auto
    then show ?thesis using 0 Cons.prems by (simp add: addLine_fields)
  next
    case (Suc j')
    then have "selectableParsedLinesMap (addLines L render (k + 1) (p + int (length (L row))) rows
          (addLine render k p (L row) m))
          (p + int (length (L row)) + int (lineTotal L (take j' rows)) + int i)
        = Some (k + 1 + int j')"
      using Cons.prems by (intro Cons.IH) auto
    then show ?thesis using Suc by (simp add: algebra_simps)
  qed
qed

lemma addLines_rowMap_outside:
  "r < k \<or> k + int (length rows) \<le> r \<Longrightarrow>
   parsedSelectableLinesMap (addLines L render k p rows m) r = parsedSelectableLinesMap m r"
proof (induction rows arbitrary: k p m)
  case Nil
  then show ?case by simp
next
  case (Cons row rows)
  have "parsedSelectableLinesMap (addLines L render (k + 1) (p + int (length (L row))) rows
          (addLine render k p (L row) m)) r
        = parsedSelectableLinesMap (addLine render k p (L row) m) r"
    using Cons.prems by (intro Cons.IH) auto
  then show ?case using Cons.prems by (auto simp: addLine_fields)
qed

lemma addLines_rowMap_inside:
  "j < length rows \<Longrightarrow> L (rows ! j) \<noteq> [] \<Longrightarrow>
   parsedSelectableLinesMap (addLines L render k p rows m) (k + int j)
     = Some (linesOf (parsedSelectableLinesMap m) (k + int j)
             @ span (p + int (lineTotal L (take j rows))) (length (L (rows ! j))))"
proof (induction rows arbitrary: k p m j)
  case Nil
  then show ?case by simp
next
  case (Cons row rows)
  show ?case
  proof (cases j)
    case 0
    then have "parsedSelectableLinesMap (addLines L render (k + 1) (p + int (length (L row))) rows
          (addLine render k p (L row) m)) k
        = parsedSelectableLinesMap (addLine render k p (L row) m) k"
      by (intro addLines_rowMap_outside) auto
    then show ?thesis using 0 Cons.prems by (simp add: addLine_fields)
  next
    case (Suc j')
    then have "parsedSelectableLinesMap (addLines L render (k + 1) (p + int (length (L row))) rows
          (addLine render k p (L row) m)) (k + 1 + int j')
        = Some (linesOf (parsedSelectableLinesMap (addLine render k p (L row) m)) (k + 1 + int j')
             @ span (p + int (length (L row)) + int (lineTotal L (take j' rows)))
                 (length (L (rows ! j'))))"
      using Cons.prems by (intro Cons.IH) auto
    moreover have "linesOf (parsedSelectableLinesMap (addLine render k p (L row) m)) (k + 1 + int j')
        = linesOf (parsedSelectableLinesMap m) (k + 1 + int j')"
      by (simp add: addLine_fields linesOf_def)
    ultimately show ?thesis using Suc by (simp add: algebra_simps)
  qed
qed

lemma addLines_selected:
  "selectedParsedLines (addLines L render k p rows m)
     = selectedParsedLines m @
       (if k \<le> selectedLine m \<and> selectedLine m < k + int (length rows)
        then span (p + int (lineTotal L (take (nat (selectedLine m - k)) rows)))
               (length (L (rows ! nat (selectedLine m - k))))
        else [])"
proof (induction rows arbitrary: k p m)
  case Nil
  then show ?case by auto
next
  case (Cons row rows)
  let ?m1 = "addLine render k p (L row) m"
  have ih: "selectedParsedLines (addLines L render (k + 1) (p + int (length (L row))) rows ?m1)
     = selectedParsedLines ?m1 @
       (if k + 1 \<le> selectedLine m \<and> selectedLine m < k + 1 + int (length rows)
        then span (p + int (length (L row)) + int (lineTotal L (take (nat (selectedLine m - (k + 1))) rows)))
               (length (L (rows ! nat (selectedLine m - (k + 1)))))
        else [])"
    using Cons.IH[of "k + 1" "p + int (length (L row))" ?m1] by simp
  show ?case
  proof (cases "selectedLine m = k")
    case True
    then show ?thesis using ih by (simp add: addLine_fields)
  next
    case False
    show ?thesis
    proof (cases "k + 1 \<le> selectedLine m \<and> selectedLine m < k + 1 + int (length rows)")
      case True
      then have n: "nat (selectedLine m - k) = Suc (nat (selectedLine m - (k + 1)))" by linarith
      show ?thesis using ih True False unfolding n by (simp add: addLine_fields algebra_simps)
    next
      case False2: False
      then show ?thesis using ih False by (auto simp: addLine_fields)
    qed
  qed
qed

lemma addLines_keeps:
  "n < length (parsedContent m) \<Longrightarrow>
   parsedContent (addLines L render k p rows m) ! n = parsedContent m ! n"
proof (induction rows arbitrary: k p m)
  case Nil
  then show ?case by simp
next
  case (Cons row rows)
  let ?m1 = "addLine render k p (L row) m"
  have "n < length (parsedContent ?m1)" using Cons.prems by (simp add: addLine_fields)
  then have "parsedContent (addLines L render (k + 1) (p + int (length (L row))) rows ?m1) ! n
      = parsedContent ?m1 ! n"
    by (rule Cons.IH)
  then show ?case using Cons.prems by (simp add: addLine_fields nth_append)
qed

lemma addLines_shown:
  "j < length rows \<Longrightarrow> i < length (L (rows ! j)) \<Longrightarrow>
   parsedContent (addLines L render k p rows m) ! (length (parsedContent m) + lineTotal L (take j rows) + i)
     = (if k + int j = selectedLine m then map render (L (rows ! j)) else L (rows ! j)) ! i"
proof (induction rows arbitrary: k p m j)
  case Nil
  then show ?case by simp
next
  case (Cons row rows)
  let ?m1 = "addLine render k p (L row) m"
  have len1: "length (parsedContent ?m1) = length (parsedContent m) + length (L row)"
    by (simp add: addLine_fields)
  show ?case
  proof (cases j)
    case 0
    then have i: "i < length (L row)" using Cons.prems by simp
    then have "length (parsedContent m) + i < length (parsedContent ?m1)" using len1 by simp
    then have "parsedContent (addLines L render (k + 1) (p + int (length (L row))) rows ?m1)
          ! (length (parsedContent m) + i) = parsedContent ?m1 ! (length (parsedContent m) + i)"
      by (rule addLines_keeps)
    then show ?thesis using 0 i by (simp add: addLine_fields nth_append)
  next
    case (Suc j')
    then have "parsedContent (addLines L render (k + 1) (p + int (length (L row))) rows ?m1)
         ! (length (parsedContent ?m1) + lineTotal L (take j' rows) + i)
     = (if k + 1 + int j' = selectedLine ?m1 then map render (L (rows ! j')) else L (rows ! j')) ! i"
      using Cons.prems by (intro Cons.IH) auto
    then show ?thesis using Suc len1 by (simp add: algebra_simps)
  qed
qed

subsection \<open>What \<open>parseContent\<close> returns\<close>

lemma parseContent_parsed:
  assumes "2 < width m" "height m \<noteq> 0"
  shows "parseContent wordwrap render m = Some (Inr (parsed wordwrap render m))"
proof -
  let ?m0 = "m\<lparr>parsedContent := [], selectedParsedLines := [],
          selectableParsedLinesMap := Map.empty, parsedSelectableLinesMap := Map.empty\<rparr>"
  have "\<forall>row\<in>set (content m). wrapLine wordwrap (width ?m0) row
          = Some (Inr (wrapped wordwrap (width m) row))"
    using assms by (simp add: wrapLine_wrapped)
  from parseLines_addLines[OF this, of render 0 0]
  show ?thesis using assms by (simp add: parseContent_def parsed_def)
qed

lemma parsed_frame [simp]:
  "width (parsed wordwrap render m) = width m"
  "height (parsed wordwrap render m) = height m"
  "content (parsed wordwrap render m) = content m"
  "selectedLine (parsed wordwrap render m) = selectedLine m"
  "scrolledTop (parsed wordwrap render m) = scrolledTop m"
  by (simp_all add: parsed_def)

lemma parsed_length:
  "length (parsedContent (parsed wordwrap render m))
     = lineTotal (wrapped wordwrap (width m)) (content m)"
  by (simp add: parsed_def addLines_length)

lemma parsed_selected:
  "selectedParsedLines (parsed wordwrap render m)
     = (if 0 \<le> selectedLine m \<and> selectedLine m < int (length (content m))
        then span (int (lineTotal (wrapped wordwrap (width m)) (take (nat (selectedLine m)) (content m))))
               (length (wrapped wordwrap (width m) (content m ! nat (selectedLine m))))
        else [])"
  by (simp add: parsed_def addLines_selected)

lemma parsed_lineMap_inside:
  "j < length (content m) \<Longrightarrow> i < length (wrapped wordwrap (width m) (content m ! j)) \<Longrightarrow>
   selectableParsedLinesMap (parsed wordwrap render m)
     (int (lineTotal (wrapped wordwrap (width m)) (take j (content m))) + int i) = Some (int j)"
  using addLines_lineMap_inside[of j "content m" i "wrapped wordwrap (width m)" render 0 0]
  by (simp add: parsed_def)

lemma parsed_lineMap_outside:
  "x < 0 \<or> int (lineTotal (wrapped wordwrap (width m)) (content m)) \<le> x \<Longrightarrow>
   selectableParsedLinesMap (parsed wordwrap render m) x = None"
  using addLines_lineMap_outside[of x 0 "wrapped wordwrap (width m)" "content m" render 0]
  by (simp add: parsed_def)

lemma parsed_rowMap_inside:
  "2 < width m \<Longrightarrow> j < length (content m) \<Longrightarrow>
   parsedSelectableLinesMap (parsed wordwrap render m) (int j)
     = Some (span (int (lineTotal (wrapped wordwrap (width m)) (take j (content m))))
               (length (wrapped wordwrap (width m) (content m ! j))))"
  using addLines_rowMap_inside[of j "content m" "wrapped wordwrap (width m)" render 0 0]
  by (simp add: parsed_def wrapped_not_Nil linesOf_def)

lemma parsed_rowMap_outside:
  "r < 0 \<or> int (length (content m)) \<le> r \<Longrightarrow>
   parsedSelectableLinesMap (parsed wordwrap render m) r = None"
  using addLines_rowMap_outside[of r 0 "content m" "wrapped wordwrap (width m)" render 0]
  by (simp add: parsed_def)

lemma parsed_shown:
  "j < length (content m) \<Longrightarrow> i < length (wrapped wordwrap (width m) (content m ! j)) \<Longrightarrow>
   parsedContent (parsed wordwrap render m)
     ! (lineTotal (wrapped wordwrap (width m)) (take j (content m)) + i)
     = (if int j = selectedLine m then map render (wrapped wordwrap (width m) (content m ! j))
        else wrapped wordwrap (width m) (content m ! j)) ! i"
  using addLines_shown[of j "content m" i "wrapped wordwrap (width m)" render 0 0
      "m\<lparr>parsedContent := [], selectedParsedLines := [],
          selectableParsedLinesMap := Map.empty, parsedSelectableLinesMap := Map.empty\<rparr>"]
  by (simp add: parsed_def)

lemma map_nth_span:
  "\<forall>i<n. xs ! (st + i) = ys ! i \<Longrightarrow> length ys = n \<Longrightarrow>
   map (\<lambda>l. xs ! nat l) (span (int st) n) = ys"
  by (rule nth_equalityI) (simp_all add: span_def nat_add_distrib)

lemma parsed_row_lines:
  assumes "2 < width m" "j < length (content m)"
  shows "map (\<lambda>l. parsedContent (parsed wordwrap render m) ! nat l)
           (linesOf (parsedSelectableLinesMap (parsed wordwrap render m)) (int j))
         = (if int j = selectedLine m then map render (wrapped wordwrap (width m) (content m ! j))
            else wrapped wordwrap (width m) (content m ! j))"
proof -
  let ?L = "wrapped wordwrap (width m)"
  let ?ys = "(if int j = selectedLine m then map render (?L (content m ! j)) else ?L (content m ! j))"
  have "\<forall>i<length (?L (content m ! j)).
          parsedContent (parsed wordwrap render m) ! (lineTotal ?L (take j (content m)) + i) = ?ys ! i"
    using assms parsed_shown[of j m _ wordwrap render] by simp
  moreover have "length ?ys = length (?L (content m ! j))" by simp
  ultimately have "map (\<lambda>l. parsedContent (parsed wordwrap render m) ! nat l)
           (span (int (lineTotal ?L (take j (content m)))) (length (?L (content m ! j)))) = ?ys"
    by (rule map_nth_span)
  then show ?thesis using assms by (simp add: parsed_rowMap_inside linesOf_def)
qed

text \<open>
  Claim C3. With a usable width \<open>W = m.width - 2 > 0\<close> (two columns are the border) and
  \<open>m.height \<noteq> 0\<close>, \<open>parseContent\<close> returns, and for every content row: its display
  lines, as the index \<open>parsedSelectableLinesMap\<close> finds them in \<open>parsedContent\<close>, are the
  lines \<open>ws2\<close> that the wrapper made of the row (each passed through the style's
  \<open>Render\<close> when the row is the selected one); every line of the word wrapper's output is
  cut into pieces of exactly \<open>W\<close> runes, the last piece holding the rest; and the lines
  \<open>ws2\<close> concatenated are the word wrapper's output \<open>wordwrap.String(row, W)\<close> with its
  line feeds removed. They are the row itself when the word wrapper did nothing to the row
  but insert line feeds.
\<close>

theorem parseContent_round_trip:
  assumes "2 < width m" "height m \<noteq> 0" "j < length (content m)"
  shows "\<exists>m' ws2.
           parseContent wordwrap render m = Some (Inr m') \<and>
           wrapLine wordwrap (width m) (content m ! j) = Some (Inr ws2) \<and>
           map (\<lambda>l. parsedContent m' ! nat l) (linesOf (parsedSelectableLinesMap m') (int j))
             = (if int j = selectedLine m then map render ws2 else ws2) \<and>
           ws2 = concat (map (chunks (nat (width m - 2)))
                          (Split (wordwrap (content m ! j) (width m - 2)))) \<and>
           (\<forall>wl::string. \<forall>piece\<in>set (butlast (chunks (nat (width m - 2)) wl)).
                   length piece = nat (width m - 2)) \<and>
           (\<forall>wl::string. length (last (chunks (nat (width m - 2)) wl)) \<le> nat (width m - 2)) \<and>
           concat ws2 = filter (\<lambda>c. c \<noteq> CHR 0x0A) (wordwrap (content m ! j) (width m - 2)) \<and>
           (filter (\<lambda>c. c \<noteq> CHR 0x0A) (wordwrap (content m ! j) (width m - 2)) = content m ! j
              \<longrightarrow> concat ws2 = content m ! j)"
proof -
  have n: "0 < nat (width m - 2)" using assms by simp
  have 1: "parseContent wordwrap render m = Some (Inr (parsed wordwrap render m))"
    using assms by (simp add: parseContent_parsed)
  have 2: "wrapLine wordwrap (width m) (content m ! j)
             = Some (Inr (wrapped wordwrap (width m) (content m ! j)))"
    using assms by (simp add: wrapLine_wrapped)
  have 3: "map (\<lambda>l. parsedContent (parsed wordwrap render m) ! nat l)
           (linesOf (parsedSelectableLinesMap (parsed wordwrap render m)) (int j))
         = (if int j = selectedLine m then map render (wrapped wordwrap (width m) (content m ! j))
            else wrapped wordwrap (width m) (content m ! j))"
    using assms by (simp add: parsed_row_lines)
  have 4: "wrapped wordwrap (width m) (content m ! j)
            = concat (map (chunks (nat (width m - 2))) (Split (wordwrap (content m ! j) (width m - 2))))"
    using assms by (simp add: wrapped_chunks)
  have 5: "concat (wrapped wordwrap (width m) (content m ! j))
            = filter (\<lambda>c. c \<noteq> CHR 0x0A) (wordwrap (content m ! j) (width m - 2))"
    using assms by (simp add: concat_wrapped)
  have 6: "\<forall>wl::string. \<forall>piece\<in>set (butlast (chunks (nat (width m - 2)) wl)).
                   length piece = nat (width m - 2)"
    using chunks_piece_length[OF n] by blast
  have 7: "\<forall>wl::string. length (last (chunks (nat (width m - 2)) wl)) \<le> nat (width m - 2)"
    using chunks_last_length[OF n] by blast
  show ?thesis
  proof (intro exI conjI)
    show "parseContent wordwrap render m = Some (Inr (parsed wordwrap render m))" by (rule 1)
    show "wrapLine wordwrap (width m) (content m ! j)
             = Some (Inr (wrapped wordwrap (width m) (content m ! j)))" by (rule 2)
    show "map (\<lambda>l. parsedContent (parsed wordwrap render m) ! nat l)
           (linesOf (parsedSelectableLinesMap (parsed wordwrap render m)) (int j))
         = (if int j = selectedLine m then map render (wrapped wordwrap (width m) (content m ! j))
            else wrapped wordwrap (width m) (content m ! j))" by (rule 3)
    show "wrapped wordwrap (width m) (content m ! j)
            = concat (map (chunks (nat (width m - 2))) (Split (wordwrap (content m ! j) (width m - 2))))"
      by (rule 4)
    show "\<forall>wl::string. \<forall>piece\<in>set (butlast (chunks (nat (width m - 2)) wl)).
                   length piece = nat (width m - 2)" by (rule 6)
    show "\<forall>wl::string. length (last (chunks (nat (width m - 2)) wl)) \<le> nat (width m - 2)"
      by (rule 7)
    show "concat (wrapped wordwrap (width m) (content m ! j))
            = filter (\<lambda>c. c \<noteq> CHR 0x0A) (wordwrap (content m ! j) (width m - 2))" by (rule 5)
    show "filter (\<lambda>c. c \<noteq> CHR 0x0A) (wordwrap (content m ! j) (width m - 2)) = content m ! j
              \<longrightarrow> concat (wrapped wordwrap (width m) (content m ! j)) = content m ! j"
      using 5 by simp
  qed
qed

text \<open>
  Claim C9. \<open>parseContent\<close> returns the model as it is when \<open>m.width\<close> or \<open>m.height\<close> is
  \<open>0\<close>: this is the guard the code has.
\<close>

theorem parseContent_zero_size_is_no_op:
  "width m = 0 \<or> height m = 0 \<Longrightarrow> parseContent wordwrap render m = Some (Inr m)"
  by (simp add: parseContent_def)

theorem parseContent_zero_size_is_no_op_witness:
  "parseContent (\<lambda>s w. s) (\<lambda>s. s) (NewTextModel [''a'']) = Some (Inr (NewTextModel [''a'']))"
  using parseContent_zero_size_is_no_op[of "NewTextModel [''a'']" "\<lambda>s w. s" "\<lambda>s. s"]
  by (simp add: NewTextModel_def)

lemma parseContent_narrow_panics:
  assumes "width m \<le> 1" "width m \<noteq> 0" "height m \<noteq> 0" "content m \<noteq> []"
  shows "parseContent wordwrap render m = Some (Inl SliceBoundsOutOfRange)"
proof -
  obtain row rows where c: "content m = row # rows" using assms by (cases "content m") auto
  show ?thesis using assms c by (simp add: parseContent_def wrapLine_panics)
qed

theorem parseContent_round_trip_witness:
  "\<exists>m'. parseContent (\<lambda>s w. s) (\<lambda>s. s)
            \<lparr>width = 6, height = 5, content = [''abcdefghij''], parsedContent = [],
             selectedLine = 1, selectedParsedLines = [], selectableParsedLinesMap = Map.empty,
             parsedSelectableLinesMap = Map.empty, scrolledTop = 0\<rparr> = Some (Inr m') \<and>
         map (\<lambda>l. parsedContent m' ! nat l) (linesOf (parsedSelectableLinesMap m') 0)
           = [''abcd'', ''efgh'', ''ij''] \<and>
         concat [''abcd'', ''efgh'', ''ij''] = ''abcdefghij''"
proof -
  let ?M = "\<lparr>width = 6, height = 5, content = [''abcdefghij''], parsedContent = [],
             selectedLine = 1, selectedParsedLines = [], selectableParsedLinesMap = Map.empty,
             parsedSelectableLinesMap = Map.empty, scrolledTop = 0\<rparr>"
  have h: "2 < width ?M" "height ?M \<noteq> 0" "0 < length (content ?M)" by simp_all
  from parseContent_round_trip[OF h, of "\<lambda>s w. s" "\<lambda>s. s"]
  obtain m' ws2 where a: "parseContent (\<lambda>s w. s) (\<lambda>s. s) ?M = Some (Inr m')"
    and b: "map (\<lambda>l. parsedContent m' ! nat l) (linesOf (parsedSelectableLinesMap m') (int 0))
             = (if int 0 = selectedLine ?M then map (\<lambda>s. s) ws2 else ws2)"
    and c: "ws2 = concat (map (chunks (nat (width ?M - 2)))
                          (Split ((\<lambda>s w. s) (content ?M ! 0) (width ?M - 2))))"
    by (elim exE conjE)
  have "ws2 = [''abcd'', ''efgh'', ''ij'']" using c by (simp add: chunks.simps)
  then show ?thesis using a b by simp
qed

theorem parseContent_negative_size_counterexample:
  "parseContent (\<lambda>s w. s) (\<lambda>s. s)
     \<lparr>width = - 1, height = 5, content = [''a''], parsedContent = [],
      selectedLine = 0, selectedParsedLines = [], selectableParsedLinesMap = Map.empty,
      parsedSelectableLinesMap = Map.empty, scrolledTop = 0\<rparr>
     = Some (Inl SliceBoundsOutOfRange) \<and>
   (\<exists>m'. parseContent (\<lambda>s w. s) (\<lambda>s. s)
     \<lparr>width = 10, height = - 1, content = [''a''], parsedContent = [],
      selectedLine = 0, selectedParsedLines = [], selectableParsedLinesMap = Map.empty,
      parsedSelectableLinesMap = Map.empty, scrolledTop = 0\<rparr> = Some (Inr m') \<and>
      parsedContent m' = [''a''] \<and> selectedParsedLines m' = [0] \<and>
      parsedContent m' \<noteq> [])"
  by (simp add: parseContent_narrow_panics parseContent_parsed parsed_def addLine_fields
      wrapped_chunks chunks.simps span_def)

text \<open>
  Claim C3 as the specification words it fails on a row that the word wrapper breaks.
  \<open>wordwrap.String\<close> breaks a line at a blank and drops that blank: of
  \<open>hello world foo\<close> at width \<open>4\<close> it makes three lines, \<open>hello\<close>, \<open>world\<close> and
  \<open>foo\<close>. The word wrapper is a parameter, given this output here. The hard split then
  cuts the two long words, and the five display lines concatenated have lost both blanks.
\<close>

theorem parseContent_drops_blank_counterexample:
  "(case parseContent (\<lambda>s w. ''hello\<newline>world\<newline>foo'') (\<lambda>s. s)
           ((NewTextModel [''hello world foo''])\<lparr>width := 6, height := 5\<rparr>) of
      Some (Inr m') \<Rightarrow>
        parsedContent m' = [''hell'', ''o'', ''worl'', ''d'', ''foo''] \<and>
        parsedSelectableLinesMap m' 0 = Some [0, 1, 2, 3, 4] \<and>
        concat (parsedContent m') = ''helloworldfoo'' \<and>
        concat (parsedContent m') \<noteq> ''hello world foo''
    | _ \<Rightarrow> False)"
proof -
  define B where "B = (NewTextModel [''hello world foo''])\<lparr>width := 6, height := 5\<rparr>"
  have w: "wrapped (\<lambda>s w. ''hello\<newline>world\<newline>foo'') 6 ''hello world foo''
             = [''hell'', ''o'', ''worl'', ''d'', ''foo'']"
    by (simp add: wrapped_chunks chunks.simps)
  have p: "parseContent (\<lambda>s w. ''hello\<newline>world\<newline>foo'') (\<lambda>s. s) B
             = Some (Inr (parsed (\<lambda>s w. ''hello\<newline>world\<newline>foo'') (\<lambda>s. s) B))"
    by (rule parseContent_parsed) (simp_all add: B_def)
  have c: "parsedContent (parsed (\<lambda>s w. ''hello\<newline>world\<newline>foo'') (\<lambda>s. s) B)
             = [''hell'', ''o'', ''worl'', ''d'', ''foo'']"
    by (simp add: parsed_def B_def NewTextModel_def w addLine_def Let_def upt_rec linesOf_def)
  have i: "parsedSelectableLinesMap (parsed (\<lambda>s w. ''hello\<newline>world\<newline>foo'') (\<lambda>s. s) B) 0
             = Some [0, 1, 2, 3, 4]"
    by (simp add: parsed_def B_def NewTextModel_def w addLine_def Let_def upt_rec linesOf_def)
  show ?thesis
    unfolding B_def[symmetric] by (simp add: p c i)
qed

section \<open>Appending, scrolling and selecting\<close>

lemma in_viewLines:
  "(l \<in> set (viewLines m)) =
     (0 \<le> l \<and> l < int (length (parsedContent m)) \<and> scrolledTop m \<le> l \<and>
      l \<le> height m - 3 + scrolledTop m)"
proof -
  have "(l \<in> set (map int [0..<length (parsedContent m)])) = (0 \<le> l \<and> l < int (length (parsedContent m)))"
  proof
    assume "l \<in> set (map int [0..<length (parsedContent m)])"
    then show "0 \<le> l \<and> l < int (length (parsedContent m))" by auto
  next
    assume a: "0 \<le> l \<and> l < int (length (parsedContent m))"
    then have "nat l \<in> set [0..<length (parsedContent m)]" "l = int (nat l)" by auto
    then show "l \<in> set (map int [0..<length (parsedContent m)])" by (metis image_eqI set_map)
  qed
  then show ?thesis by (auto simp: viewLines_def)
qed

text \<open>With the identity for the two library functions a short line is its own display line.\<close>

lemma wrapped_id_short:
  "2 < wd \<Longrightarrow> length s \<le> nat (wd - 2) \<Longrightarrow> Split s = [s] \<Longrightarrow> wrapped (\<lambda>s w. s) wd s = [s]"
  by (simp add: wrapped_chunks chunks_short)

text \<open>
  Claim C10. In a line list with a usable width (\<open>m.width > 2\<close>) and at least one text row
  (\<open>m.height \<ge> 3\<close>), \<open>AppendContent(text...)\<close> returns with the rows appended and the
  display lines rebuilt. If the selected line was the last content row, the selection is the
  new last row, and when the display lines no longer fit the \<open>m.height - 2\<close> text rows,
  \<open>scrolledTop\<close> is set so that the window ends with the last display line, which
  \<open>View\<close> then shows. Otherwise \<open>selectedLine\<close> and \<open>scrolledTop\<close> keep their values.
\<close>

theorem AppendContent_follows_the_tail:
  assumes "2 < width m" "3 \<le> height m"
  shows "\<exists>m'. AppendContent wordwrap render m text = Some (Inr m') \<and>
           content m' = content m @ text \<and>
           length (parsedContent m') = lineTotal (wrapped wordwrap (width m)) (content m @ text) \<and>
           (if selectedLine m = int (length (content m)) - 1
            then selectedLine m' = int (length (content m')) - 1 \<and>
                 (if int (length (parsedContent m')) > height m - 2
                  then scrolledTop m' + (height m - 2) = int (length (parsedContent m')) \<and>
                       int (length (parsedContent m')) - 1 \<in> set (viewLines m')
                  else scrolledTop m' = scrolledTop m)
            else selectedLine m' = selectedLine m \<and> scrolledTop m' = scrolledTop m)"
proof -
  let ?move = "selectedLine m = int (length (content m)) - 1"
  let ?m1 = "(if ?move then m\<lparr>selectedLine := int (length (content m)) - 1 + int (length text)\<rparr> else m)"
  let ?m2 = "?m1\<lparr>content := content ?m1 @ text\<rparr>"
  let ?m3 = "parsed wordwrap render ?m2"
  have w: "2 < width ?m2" "height ?m2 \<noteq> 0" using assms by auto
  have p: "parseContent wordwrap render ?m2 = Some (Inr ?m3)"
    using w by (rule parseContent_parsed)
  have len: "length (parsedContent ?m3) = lineTotal (wrapped wordwrap (width m)) (content m @ text)"
    by (simp add: parsed_length)
  let ?m' = "(if ?move \<and> int (length (parsedContent ?m3)) > height ?m3 - 2
             then ?m3\<lparr>scrolledTop := int (length (parsedContent ?m3)) - height ?m3 + 2\<rparr> else ?m3)"
  have r: "AppendContent wordwrap render m text = Some (Inr ?m')"
    using p by (simp add: AppendContent_def Let_def)
  have "content ?m' = content m @ text \<and>
           length (parsedContent ?m') = lineTotal (wrapped wordwrap (width m)) (content m @ text) \<and>
           (if selectedLine m = int (length (content m)) - 1
            then selectedLine ?m' = int (length (content ?m')) - 1 \<and>
                 (if int (length (parsedContent ?m')) > height m - 2
                  then scrolledTop ?m' + (height m - 2) = int (length (parsedContent ?m')) \<and>
                       int (length (parsedContent ?m')) - 1 \<in> set (viewLines ?m')
                  else scrolledTop ?m' = scrolledTop m)
            else selectedLine ?m' = selectedLine m \<and> scrolledTop ?m' = scrolledTop m)"
    using assms len by (auto simp: in_viewLines)
  with r show ?thesis by blast
qed

theorem AppendContent_follows_the_tail_witness:
  "\<exists>m'. AppendContent (\<lambda>s w. s) (\<lambda>s. s)
           \<lparr>width = 10, height = 4, content = [''a'', ''b''], parsedContent = [''a'', ''b''],
            selectedLine = 1, selectedParsedLines = [1], selectableParsedLinesMap = [0 \<mapsto> 0, 1 \<mapsto> 1],
            parsedSelectableLinesMap = [0 \<mapsto> [0], 1 \<mapsto> [1]], scrolledTop = 0\<rparr>
           [''c'', ''d''] = Some (Inr m') \<and>
         content m' = [''a'', ''b'', ''c'', ''d''] \<and> selectedLine m' = 3 \<and>
         length (parsedContent m') = 4 \<and> scrolledTop m' = 2 \<and> 3 \<in> set (viewLines m')"
  using AppendContent_follows_the_tail
    [of "\<lparr>width = 10, height = 4, content = [''a'', ''b''], parsedContent = [''a'', ''b''],
            selectedLine = 1, selectedParsedLines = [1], selectableParsedLinesMap = [0 \<mapsto> 0, 1 \<mapsto> 1],
            parsedSelectableLinesMap = [0 \<mapsto> [0], 1 \<mapsto> [1]], scrolledTop = 0\<rparr>"
        "\<lambda>s w. s" "\<lambda>s. s" "[''c'', ''d'']"]
  by (simp add: wrapped_chunks chunks.simps) (auto split: if_splits)




text \<open>
  The move up that the statement of claim C5 leaves out: the line list tests
  \<open>m.scrolledTop+num > 0\<close> where both tables test \<open>>= 0\<close>, so its \<open>ViewScroll(-1)\<close> from
  \<open>scrolledTop = 1\<close> stays at \<open>1\<close>, and that of the table goes to \<open>0\<close>.
\<close>

lemma ViewScroll_up_to_0:
  "scrolledTop (ViewScroll
      \<lparr>width = 10, height = 5, content = replicate 9 ''a'', parsedContent = replicate 9 ''a'',
       selectedLine = 0, selectedParsedLines = [0], selectableParsedLinesMap = Map.empty,
       parsedSelectableLinesMap = Map.empty, scrolledTop = 1\<rparr> (- 1)) = 1 \<and>
   scrolledTopT (ViewScrollT
      \<lparr>widthT = 40, heightT = 13, headers = [''h''], contentT = replicate 100 [''x''],
       selectedLineT = 0, scrolledTopT = 1, filterT = [], filterColums = [0],
       filteredContent = replicate 100 [''x''], sortByCol = 0, sortOrder = SortUnsorted,
       sortedContent = replicate 100 [''x'']\<rparr> (- 1)) = 0"
  by (simp add: ViewScroll_def ViewScrollT_def i64_def)

text \<open>
  Claim C1, the failing inputs. In the table without filter, \<open>PageScroll(1, false)\<close> on
  three rows with \<open>m.height = 10\<close> ends with \<open>scrolledTop = -3\<close>: its last block sets
  \<open>len(m.content) - m.height + 4\<close> with no lower bound (the table with filter has
  \<open>max(m.scrolledTop, 0)\<close> there). In the table with filter, \<open>SetContent\<close> keeps
  \<open>scrolledTop\<close> (the line list's \<open>SetContent\<close> sets it to \<open>0\<close>): after the last of
  twenty rows was selected with ten rows showing, one row of new content leaves
  \<open>scrolledTop = 10\<close>.
\<close>

theorem scrolledTop_leaves_its_range:
  "scrolledTopP (PageScrollP (SetSizeP (NewPlainTableModel [[''a''], [''b''], [''c'']]) 40 10) 1 False)
     = - 3 \<and>
   (case NewTableModel [''h''] (replicate 20 [''x'']) of
      Inl e \<Rightarrow> False
    | Inr m0 \<Rightarrow>
        scrolledTopT (SelectLastLineT (SetSizeT m0 40 13)) = 10 \<and>
        (case SetContentT ToLower CompareString (SelectLastLineT (SetSizeT m0 40 13)) [[''y'']] of
           Inl e \<Rightarrow> False
         | Inr m2 \<Rightarrow> scrolledTopT m2 = 10 \<and> sortedContent m2 = [[''y'']]))"
  by (simp add: PageScrollP_def SetSizeP_def NewPlainTableModel_def i64_def Let_def
      NewTableModel_def SetSizeT_def SelectLastLineT_def SetSelectedLineT_def SetContentT_def
      filterContent_def sortFilteredContent_def)

lemma lineTotal_single:
  "\<forall>row\<in>set rows. length (L row) = 1 \<Longrightarrow> lineTotal L rows = length rows"
  by (induction rows) simp_all

lemma span_one: "span p (Suc 0) = [p]"
  by (simp add: span_def)

lemma SetSelectedLine_parsed:
  "2 < width m \<Longrightarrow> height m \<noteq> 0 \<Longrightarrow>
   SetSelectedLine wordwrap render m numLine
     = Some (showSelected (parsed wordwrap render (m\<lparr>selectedLine := numLine\<rparr>)))"
  by (simp add: SetSelectedLine_def parseContent_parsed)

text \<open>
  Claim C8. A viewport of 10 rows is \<open>m.height = 12\<close> in the line list (two rows are the
  border), \<open>m.height = 13\<close> in the table with filter (\<open>14\<close> when the filter is shown) and
  \<open>m.height = 14\<close> in the table without filter. On a line list with \<open>m.width > 2\<close> and
  100 rows of one display line each, on a table with filter with 100 filtered rows and on a
  table without filter with 100 rows, each with \<open>scrolledTop\<close> at most \<open>90\<close> before
  the call, \<open>SetSelectedLine(99)\<close> selects row 99 and sets \<open>scrolledTop\<close> to exactly
  \<open>90\<close>, the number of display lines less the 10 rows of the viewport.
\<close>

theorem SetSelectedLine_last_of_100:
  "(2 < width m \<and> height m - 2 = 10 \<and> length (content m) = 100 \<and>
    (\<forall>row\<in>set (content m). length (wrapped wordwrap (width m) row) = 1) \<and>
    scrolledTop m \<le> 90 \<longrightarrow>
      (\<exists>m'. SetSelectedLine wordwrap render m 99 = Some (Inr m') \<and> selectedLine m' = 99 \<and>
            length (parsedContent m') = 100 \<and> scrolledTop m' = 90 \<and>
            scrolledTop m' = int (length (parsedContent m')) - (height m' - 2))) \<and>
   (((heightT t - 3 = 10 \<and> filterT t = []) \<or> (heightT t - 4 = 10 \<and> filterT t \<noteq> [])) \<and>
    length (filteredContent t) = 100 \<and> scrolledTopT t \<le> 90 \<longrightarrow>
      selectedLineT (SetSelectedLineT t 99) = 99 \<and> scrolledTopT (SetSelectedLineT t 99) = 90) \<and>
   (heightP p - 4 = 10 \<and> length (contentP p) = 100 \<and> scrolledTopP p \<le> 90 \<longrightarrow>
      selectedLineP (SetSelectedLineP p 99) = 99 \<and> scrolledTopP (SetSelectedLineP p 99) = 90)"
proof (intro conjI impI)
  assume a: "2 < width m \<and> height m - 2 = 10 \<and> length (content m) = 100 \<and>
    (\<forall>row\<in>set (content m). length (wrapped wordwrap (width m) row) = 1) \<and>
    scrolledTop m \<le> 90"
  let ?L = "wrapped wordwrap (width m)"
  let ?m1 = "parsed wordwrap render (m\<lparr>selectedLine := 99\<rparr>)"
  have h: "height m = 12" using a by simp
  have one: "\<forall>row\<in>set (content m). length (?L row) = 1" using a by simp
  have "\<forall>row\<in>set (take 99 (content m)). length (?L row) = 1"
    using one by (meson in_set_takeD)
  then have t99: "lineTotal ?L (take 99 (content m)) = 99"
    using a by (simp add: lineTotal_single)
  have l99: "length (?L (content m ! 99)) = 1" using one a by simp
  have sel: "selectedParsedLines ?m1 = [99]"
    using a t99 l99 by (simp add: parsed_selected span_one)
  have len: "length (parsedContent ?m1) = 100"
    using a one by (simp add: parsed_length lineTotal_single)
  have r: "SetSelectedLine wordwrap render m 99 = Some (showSelected ?m1)"
    using a h by (simp add: SetSelectedLine_parsed)
  have s: "showSelected ?m1 = Inr (?m1\<lparr>scrolledTop := 90\<rparr>)"
    using a h sel by (simp add: showSelected_def index_def Let_def)
  show "\<exists>m'. SetSelectedLine wordwrap render m 99 = Some (Inr m') \<and> selectedLine m' = 99 \<and>
            length (parsedContent m') = 100 \<and> scrolledTop m' = 90 \<and>
            scrolledTop m' = int (length (parsedContent m')) - (height m' - 2)"
    using r s len h by simp
next
  assume "((heightT t - 3 = 10 \<and> filterT t = []) \<or> (heightT t - 4 = 10 \<and> filterT t \<noteq> [])) \<and>
    length (filteredContent t) = 100 \<and> scrolledTopT t \<le> 90"
  then show "selectedLineT (SetSelectedLineT t 99) = 99"
    by (auto simp: SetSelectedLineT_def Let_def)
next
  assume "((heightT t - 3 = 10 \<and> filterT t = []) \<or> (heightT t - 4 = 10 \<and> filterT t \<noteq> [])) \<and>
    length (filteredContent t) = 100 \<and> scrolledTopT t \<le> 90"
  then show "scrolledTopT (SetSelectedLineT t 99) = 90"
    by (auto simp: SetSelectedLineT_def Let_def)
next
  assume "heightP p - 4 = 10 \<and> length (contentP p) = 100 \<and> scrolledTopP p \<le> 90"
  then show "selectedLineP (SetSelectedLineP p 99) = 99"
    by (auto simp: SetSelectedLineP_def Let_def)
next
  assume "heightP p - 4 = 10 \<and> length (contentP p) = 100 \<and> scrolledTopP p \<le> 90"
  then show "scrolledTopP (SetSelectedLineP p 99) = 90"
    by (auto simp: SetSelectedLineP_def Let_def)
qed

theorem SetSelectedLine_last_of_100_witness:
  "(\<exists>m'. SetSelectedLine (\<lambda>s w. s) (\<lambda>s. s)
           \<lparr>width = 20, height = 12, content = replicate 100 ''row'', parsedContent = [],
            selectedLine = 0, selectedParsedLines = [], selectableParsedLinesMap = Map.empty,
            parsedSelectableLinesMap = Map.empty, scrolledTop = 0\<rparr> 99 = Some (Inr m') \<and>
         selectedLine m' = 99 \<and> scrolledTop m' = 90) \<and>
   scrolledTopT (SetSelectedLineT
      \<lparr>widthT = 40, heightT = 13, headers = [''h''], contentT = replicate 100 [''x''],
       selectedLineT = 0, scrolledTopT = 0, filterT = [], filterColums = [0],
       filteredContent = replicate 100 [''x''], sortByCol = 0, sortOrder = SortUnsorted,
       sortedContent = replicate 100 [''x'']\<rparr> 99) = 90 \<and>
   scrolledTopP (SetSelectedLineP
      \<lparr>widthP = 40, heightP = 14, contentP = replicate 100 [''x''], selectedLineP = 0,
       scrolledTopP = 0\<rparr> 99) = 90"
  using SetSelectedLine_last_of_100
    [where m="\<lparr>width = 20, height = 12, content = replicate 100 ''row'', parsedContent = [],
            selectedLine = 0, selectedParsedLines = [], selectableParsedLinesMap = Map.empty,
            parsedSelectableLinesMap = Map.empty, scrolledTop = 0\<rparr>"
       and wordwrap="\<lambda>s w. s" and render="\<lambda>s. s"
       and t="\<lparr>widthT = 40, heightT = 13, headers = [''h''], contentT = replicate 100 [''x''],
       selectedLineT = 0, scrolledTopT = 0, filterT = [], filterColums = [0],
       filteredContent = replicate 100 [''x''], sortByCol = 0, sortOrder = SortUnsorted,
       sortedContent = replicate 100 [''x'']\<rparr>"
       and p="\<lparr>widthP = 40, heightP = 14, contentP = replicate 100 [''x''], selectedLineP = 0,
       scrolledTopP = 0\<rparr>"]
  by (simp add: wrapped_chunks chunks.simps) (auto split: if_splits)

section \<open>The selection and the window\<close>

lemma in_span: "(l \<in> set (span a n)) = (a \<le> l \<and> l < a + int n)"
proof -
  have "set (span a n) = (\<lambda>i. int i + a) ` {0..<n}"
    by (auto simp: span_def add.commute)
  then show ?thesis by (simp add: in_span_image)
qed

lemma span_nth: "i < n \<Longrightarrow> span a n ! i = a + int i"
  by (simp add: span_def)

lemma span_length [simp]: "length (span a n) = n"
  by (simp add: span_def)

text \<open>The scroll part of \<open>SetSelectedLine\<close> when the selected row has the display lines
  \<open>a, ..., a + n - 1\<close>.\<close>

lemma showSelected_span:
  assumes sp: "selectedParsedLines m = span a n" and n: "0 < n"
  shows "showSelected m =
     Inr (m\<lparr>scrolledTop :=
            (if a + int n - 1 > scrolledTop m + height m - int n - 2
             then (if a < a + int n - 1 - height m + 3 then (if a < 0 then 0 else a)
                   else (if a + int n - 1 - height m + 3 < 0 then 0
                         else a + int n - 1 - height m + 3))
             else (if a < scrolledTop m then (if a < 0 then 0 else a)
                   else (if scrolledTop m < 0 then 0 else scrolledTop m)))\<rparr>)"
proof -
  have l: "index (selectedParsedLines m) (int (length (selectedParsedLines m)) - 1)
             = Inr (a + int n - 1)"
  proof -
    have "nat (int n - 1) < n" using n by simp
    then have "span a n ! nat (int n - 1) = a + int (nat (int n - 1))" by (rule span_nth)
    then show ?thesis using n sp by (simp add: index_def)
  qed
  have f: "\<And>x. index (selectedParsedLines (m\<lparr>scrolledTop := x\<rparr>)) 0 = Inr a"
    "index (selectedParsedLines m) 0 = Inr a"
    using n sp by (simp_all add: index_def span_nth)
  show ?thesis
    unfolding showSelected_def Let_def l using f sp by simp
qed

lemma window_arith:
  fixes a n s H T :: int
  assumes "0 < n" "0 \<le> a" "a + n \<le> T" "3 \<le> H"
    and "S = (if a + n - 1 > s + H - n - 2
             then (if a < a + n - 1 - H + 3 then (if a < 0 then 0 else a)
                   else (if a + n - 1 - H + 3 < 0 then 0 else a + n - 1 - H + 3))
             else (if a < s then (if a < 0 then 0 else a) else (if s < 0 then 0 else s)))"
  shows "((a < T \<and> S \<le> a \<and> a \<le> H - 3 + S) \<or>
          (0 \<le> a + n - 1 \<and> a + n - 1 < T \<and> S \<le> a + n - 1 \<and> a + n - 1 \<le> H - 3 + S))
         \<and> 0 \<le> S \<and> (T \<le> H - 2 \<and> s \<le> 0 \<longrightarrow> S = 0)"
  using assms by (auto split: if_splits)

lemma showSelected_visible:
  assumes sp: "selectedParsedLines m = span a n" and n: "0 < n" and a: "0 \<le> a"
    and t: "a + int n \<le> int (length (parsedContent m))" and h: "3 \<le> height m"
  shows "\<exists>m'. showSelected m = Inr m' \<and> selectedParsedLines m' = span a n \<and>
              selectedLine m' = selectedLine m \<and> parsedContent m' = parsedContent m \<and>
              parsedSelectableLinesMap m' = parsedSelectableLinesMap m \<and>
              height m' = height m \<and>
              (\<exists>l\<in>set (selectedParsedLines m'). l \<in> set (viewLines m')) \<and>
              0 \<le> scrolledTop m' \<and>
              (int (length (parsedContent m)) \<le> height m - 2 \<and> scrolledTop m \<le> 0
                 \<longrightarrow> scrolledTop m' = 0)"
proof -
  define S where "S = (if a + int n - 1 > scrolledTop m + height m - int n - 2
             then (if a < a + int n - 1 - height m + 3 then (if a < 0 then 0 else a)
                   else (if a + int n - 1 - height m + 3 < 0 then 0
                         else a + int n - 1 - height m + 3))
             else (if a < scrolledTop m then (if a < 0 then 0 else a)
                   else (if scrolledTop m < 0 then 0 else scrolledTop m)))"
  let ?m' = "m\<lparr>scrolledTop := S\<rparr>"
  have r: "showSelected m = Inr ?m'" unfolding S_def using sp n by (rule showSelected_span)
  have n': "0 < int n" using n by simp
  from window_arith[OF n' a t h S_def]
  have w: "(a < int (length (parsedContent m)) \<and> S \<le> a \<and> a \<le> height m - 3 + S) \<or>
          (0 \<le> a + int n - 1 \<and> a + int n - 1 < int (length (parsedContent m)) \<and>
           S \<le> a + int n - 1 \<and> a + int n - 1 \<le> height m - 3 + S)"
    and z: "0 \<le> S"
    and f: "int (length (parsedContent m)) \<le> height m - 2 \<and> scrolledTop m \<le> 0 \<longrightarrow> S = 0"
    by blast+
  have v: "a \<in> set (viewLines ?m') \<or> a + int n - 1 \<in> set (viewLines ?m')"
    using w a by (simp add: in_viewLines)
  have i: "a \<in> set (span a n)" "a + int n - 1 \<in> set (span a n)"
    using n by (simp_all add: in_span)
  have sp': "selectedParsedLines ?m' = span a n" using sp by simp
  have vis: "\<exists>l\<in>set (selectedParsedLines ?m'). l \<in> set (viewLines ?m')"
    unfolding sp' using v i by blast
  show ?thesis using r sp vis z f by (intro exI[of _ ?m']) simp
qed

lemma lineTotal_row_end:
  "j < length rows \<Longrightarrow> lineTotal L (take j rows) + length (L (rows ! j)) \<le> lineTotal L rows"
  using lineTotal_take_le[of L "Suc j" rows] by (simp add: lineTotal_take_Suc)

lemma SetSelectedLine_shows_selection:
  assumes w: "2 < width m" and h: "3 \<le> height m"
    and n: "0 \<le> numLine" "numLine < int (length (content m))"
  shows "\<exists>m'. SetSelectedLine wordwrap render m numLine = Some (Inr m') \<and>
           selectedLine m' = numLine \<and>
           parsedSelectableLinesMap m' (selectedLine m') = Some (selectedParsedLines m') \<and>
           (\<exists>l\<in>set (selectedParsedLines m'). l \<in> set (viewLines m')) \<and>
           0 \<le> scrolledTop m' \<and>
           (int (length (parsedContent m')) \<le> height m' - 2 \<and> scrolledTop m \<le> 0
              \<longrightarrow> scrolledTop m' = 0)"
proof -
  let ?m0 = "m\<lparr>selectedLine := numLine\<rparr>"
  let ?m1 = "parsed wordwrap render ?m0"
  let ?L = "wrapped wordwrap (width m)"
  let ?j = "nat numLine"
  let ?a = "int (lineTotal ?L (take ?j (content m)))"
  let ?n = "length (?L (content m ! ?j))"
  have j: "?j < length (content m)" "int ?j = numLine" using n by auto
  have r: "SetSelectedLine wordwrap render m numLine = Some (showSelected ?m1)"
    using w h by (simp add: SetSelectedLine_parsed)
  have sp: "selectedParsedLines ?m1 = span ?a ?n"
    using n by (simp add: parsed_selected)
  have n0: "0 < ?n" using w wrapped_not_Nil[of "width m" wordwrap "content m ! ?j"] by simp
  have t: "?a + int ?n \<le> int (length (parsedContent ?m1))"
    using lineTotal_row_end[OF j(1), of ?L] by (simp add: parsed_length)
  have rm: "parsedSelectableLinesMap ?m1 numLine = Some (span ?a ?n)"
    using parsed_rowMap_inside[of ?m0 ?j wordwrap render] w j by simp
  have h1: "3 \<le> height ?m1" using h by simp
  have a0: "0 \<le> ?a" by simp
  from showSelected_visible[OF sp n0 a0 t h1]
  obtain m' where m': "showSelected ?m1 = Inr m'" "selectedParsedLines m' = span ?a ?n"
      "selectedLine m' = selectedLine ?m1" "parsedContent m' = parsedContent ?m1"
      "parsedSelectableLinesMap m' = parsedSelectableLinesMap ?m1" "height m' = height ?m1"
      "\<exists>l\<in>set (selectedParsedLines m'). l \<in> set (viewLines m')"
      "0 \<le> scrolledTop m'"
      "int (length (parsedContent ?m1)) \<le> height ?m1 - 2 \<and> scrolledTop ?m1 \<le> 0
                 \<longrightarrow> scrolledTop m' = 0"
    by (elim exE conjE)
  show ?thesis
    using r m' rm by (intro exI[of _ m']) simp
qed

lemma SetSelectedLineT_shows_selection:
  assumes "0 \<le> line" "line < int (length (filteredContent t))"
    and "length (sortedContent t) = length (filteredContent t)"
    and "0 \<le> scrolledTopT t"
    and "(filterT t = [] \<and> 4 \<le> heightT t) \<or> (filterT t \<noteq> [] \<and> 5 \<le> heightT t)"
  shows "selectedLineT (SetSelectedLineT t line) = line \<and>
         0 \<le> scrolledTopT (SetSelectedLineT t line) \<and>
         scrolledTopT (SetSelectedLineT t line) \<le> selectedLineT (SetSelectedLineT t line) \<and>
         selectedLineT (SetSelectedLineT t line) < linesHeight (SetSelectedLineT t line) \<and>
         (linesHeight (t\<lparr>scrolledTopT := 0\<rparr>) = int (length (sortedContent t)) \<and> scrolledTopT t = 0
            \<longrightarrow> scrolledTopT (SetSelectedLineT t line) = 0)"
  using assms by (auto simp: SetSelectedLineT_def linesHeight_def Let_def)

text \<open>\<open>PageScroll\<close> of the table with \<open>moveSelected\<close>, in one piece: \<open>x\<close> is
  \<open>scrolledTop\<close> after the first assignment.\<close>

lemma PageScrollT_moveSelected:
  assumes "h = (if filterT t \<noteq> [] then heightT t - 1 else heightT t)"
    and "x = i64 (scrolledTopT t + i64 ((h - 3) * num))"
    and "len = int (length (filteredContent t))"
    and "num \<noteq> 0"
  shows "PageScrollT t num True =
     (if (if x < 0 then 0 else x) > len - h - 3
      then t\<lparr>scrolledTopT := max (len - h + 3) 0,
             selectedLineT := (if max (len - h + 3) 0 + h - 4 > len then len - 1
                               else max (len - h + 3) 0 + h - 4)\<rparr>
      else t\<lparr>scrolledTopT := (if x < 0 then 0 else x),
             selectedLineT := (if x < 0 then 0 else if num > 0 then x + h - 4 else x)\<rparr>)"
proof (cases "filterT t = []")
  case True
  then have h: "h = heightT t" using assms by simp
  show ?thesis
    using assms(2,3,4) True unfolding h
    by (cases "x < 0"; cases "num > 0") (simp_all add: PageScrollT_def Let_def)
next
  case False
  then have h: "h = heightT t - 1" using assms by simp
  show ?thesis
    using assms(2,3,4) False unfolding h
    by (cases "x < 0"; cases "num > 0") (simp_all add: PageScrollT_def Let_def)
qed

lemma page_arith:
  fixes x h len S SEL :: int
  assumes "4 \<le> h" "0 \<le> len"
    and "S = (if (if x < 0 then 0 else x) > len - h - 3 then max (len - h + 3) 0
              else (if x < 0 then 0 else x))"
    and "SEL = (if (if x < 0 then 0 else x) > len - h - 3
                then (if max (len - h + 3) 0 + h - 4 > len then len - 1
                      else max (len - h + 3) 0 + h - 4)
                else (if x < 0 then 0 else if up then x + h - 4 else x))"
  shows "0 \<le> S \<and> ((S \<le> SEL \<and> SEL < min (h - 3 + S) len) \<or> (min (h - 3) len = len \<and> S = 0))"
  using assms by (auto simp: max_def min_def split: if_splits)

lemma PageScrollT_shows_selection:
  assumes "num \<noteq> 0"
    and "length (sortedContent t) = length (filteredContent t)"
    and "(filterT t = [] \<and> 4 \<le> heightT t) \<or> (filterT t \<noteq> [] \<and> 5 \<le> heightT t)"
  shows "0 \<le> scrolledTopT (PageScrollT t num True) \<and>
         ((scrolledTopT (PageScrollT t num True) \<le> selectedLineT (PageScrollT t num True) \<and>
           selectedLineT (PageScrollT t num True) < linesHeight (PageScrollT t num True)) \<or>
          (linesHeight ((PageScrollT t num True)\<lparr>scrolledTopT := 0\<rparr>) = int (length (sortedContent t)) \<and>
           scrolledTopT (PageScrollT t num True) = 0))"
proof -
  define h where "h = (if filterT t \<noteq> [] then heightT t - 1 else heightT t)"
  define x where "x = i64 (scrolledTopT t + i64 ((h - 3) * num))"
  define len where "len = int (length (filteredContent t))"
  define S where "S = (if (if x < 0 then 0 else x) > len - h - 3 then max (len - h + 3) 0
              else (if x < 0 then 0 else x))"
  define SEL where "SEL = (if (if x < 0 then 0 else x) > len - h - 3
                then (if max (len - h + 3) 0 + h - 4 > len then len - 1
                      else max (len - h + 3) 0 + h - 4)
                else (if x < 0 then 0 else if num > 0 then x + h - 4 else x))"
  have r: "PageScrollT t num True = t\<lparr>scrolledTopT := S, selectedLineT := SEL\<rparr>"
    unfolding PageScrollT_moveSelected[OF h_def x_def len_def assms(1)] S_def SEL_def by simp
  have h4: "4 \<le> h" using assms(3) by (auto simp: h_def)
  have l0: "0 \<le> len" by (simp add: len_def)
  from page_arith[OF h4 l0 S_def SEL_def]
  have p: "0 \<le> S \<and> ((S \<le> SEL \<and> SEL < min (h - 3 + S) len) \<or> (min (h - 3) len = len \<and> S = 0))" .
  have lh: "linesHeight (t\<lparr>scrolledTopT := S, selectedLineT := SEL\<rparr>) = min (h - 3 + S) len"
    "linesHeight (t\<lparr>scrolledTopT := S, selectedLineT := SEL, scrolledTopT := 0\<rparr>) = min (h - 3) len"
    using assms(2) by (simp_all add: linesHeight_def h_def len_def)
  show ?thesis unfolding r using p lh assms(2) by (simp add: len_def)
qed

lemma lineTotal_decompose:
  "k < lineTotal L rows \<Longrightarrow>
   \<exists>j i. j < length rows \<and> i < length (L (rows ! j)) \<and> k = lineTotal L (take j rows) + i"
proof (induction rows arbitrary: k)
  case Nil
  then show ?case by simp
next
  case (Cons row rows)
  show ?case
  proof (cases "k < length (L row)")
    case True
    then have "0 < length (row # rows) \<and> k < length (L ((row # rows) ! 0)) \<and>
               k = lineTotal L (take 0 (row # rows)) + k" by simp
    then show ?thesis by blast
  next
    case False
    then have "k - length (L row) < lineTotal L rows" using Cons.prems by simp
    from Cons.IH[OF this] obtain j i where ji: "j < length rows" "i < length (L (rows ! j))"
        "k - length (L row) = lineTotal L (take j rows) + i" by blast
    then have "Suc j < length (row # rows) \<and> i < length (L ((row # rows) ! Suc j)) \<and>
               k = lineTotal L (take (Suc j) (row # rows)) + i" using False by simp
    then show ?thesis by blast
  qed
qed

text \<open>A model whose display state is up to date is the \<open>parsed\<close> one.\<close>

lemma up_to_date:
  "2 < width m \<Longrightarrow> height m \<noteq> 0 \<Longrightarrow> parseContent wordwrap render m = Some (Inr m) \<Longrightarrow>
   m = parsed wordwrap render m"
  using parseContent_parsed[of m wordwrap render] by simp

text \<open>After \<open>parseContent\<close>: the selected row \<open>j\<close> and one of its display lines in the window.\<close>

lemma parsed_shows_selection:
  assumes w: "2 < width m1" and j: "j < length (content m1)" and sel: "selectedLine m1 = int j"
    and l: "int (lineTotal (wrapped wordwrap (width m1)) (take j (content m1))) \<le> l"
       "l < int (lineTotal (wrapped wordwrap (width m1)) (take j (content m1)))
            + int (length (wrapped wordwrap (width m1) (content m1 ! j)))"
    and v: "scrolledTop m1 \<le> l" "l \<le> height m1 - 3 + scrolledTop m1"
  shows "parsedSelectableLinesMap (parsed wordwrap render m1) (selectedLine (parsed wordwrap render m1))
           = Some (selectedParsedLines (parsed wordwrap render m1)) \<and>
         (\<exists>l\<in>set (selectedParsedLines (parsed wordwrap render m1)).
             l \<in> set (viewLines (parsed wordwrap render m1)))"
proof -
  let ?L = "wrapped wordwrap (width m1)"
  let ?a = "int (lineTotal ?L (take j (content m1)))"
  let ?n = "length (?L (content m1 ! j))"
  let ?m' = "parsed wordwrap render m1"
  have sp: "selectedParsedLines ?m' = span ?a ?n"
    using j sel by (simp add: parsed_selected)
  have rm: "parsedSelectableLinesMap ?m' (int j) = Some (span ?a ?n)"
    using w j by (rule parsed_rowMap_inside)
  have "l < int (lineTotal ?L (content m1))"
    using l(2) lineTotal_row_end[OF j, of ?L] by simp
  then have "l \<in> set (viewLines ?m')"
    using l(1) v by (simp add: in_viewLines parsed_length)
  moreover have "l \<in> set (span ?a ?n)" using l by (simp add: in_span)
  ultimately show ?thesis using sp rm sel by auto
qed

lemma index_span_last: "0 < n \<Longrightarrow> index (span a n) (int (length (span a n)) - 1) = Inr (a + int n - 1)"
proof -
  assume n: "0 < n"
  then have "nat (int n - 1) < n" by simp
  then have "span a n ! nat (int n - 1) = a + int (nat (int n - 1))" by (rule span_nth)
  then show ?thesis using n by (simp add: index_def)
qed

lemma index_span_first: "0 < n \<Longrightarrow> index (span a n) 0 = Inr a"
  by (simp add: index_def span_nth)

lemma PageScroll_down_shows_selection:
  assumes w: "2 < width m" and h: "3 \<le> height m"
    and c: "parseContent wordwrap render m = Some (Inr m)"
    and s0: "0 \<le> scrolledTop m"
    and num: "0 < num" "scrolledTop m < int (length (parsedContent m)) - height m + 2"
    and o: "in64 ((height m - 2) * num)" "in64 (scrolledTop m + (height m - 2) * num)"
  shows "\<exists>m'. PageScroll wordwrap render m num True = Some (Inr m') \<and>
           parsedSelectableLinesMap m' (selectedLine m') = Some (selectedParsedLines m') \<and>
           (\<exists>l\<in>set (selectedParsedLines m'). l \<in> set (viewLines m')) \<and> 0 \<le> scrolledTop m'"
proof -
  let ?L = "wrapped wordwrap (width m)"
  let ?T = "int (length (parsedContent m))"
  let ?x = "scrolledTop m + (height m - 2) * num"
  have h0: "height m \<noteq> 0" using h by simp
  have m: "m = parsed wordwrap render m" using w h0 c by (rule up_to_date)
  have T: "length (parsedContent m) = lineTotal ?L (content m)"
    using parsed_length[of wordwrap render m] m by simp
  have x: "i64 ((height m - 2) * num) = (height m - 2) * num"
          "i64 (scrolledTop m + (height m - 2) * num) = ?x"
    using o by (simp_all add: i64_id)
  have xs: "scrolledTop m \<le> ?x" using num(1) h by simp
  have ne: "content m \<noteq> []" using T num(2) s0 h by auto
  show ?thesis
  proof (cases "?x > ?T - 2 \<or> ?x > ?T - 1 - height m - 2")
    case True
    let ?m1 = "m\<lparr>scrolledTop := ?T - height m + 2, selectedLine := int (length (content m)) - 1\<rparr>"
    let ?j = "length (content m) - 1"
    have pm: "pageMove m num True = Inr ?m1"
      unfolding pageMove_def Let_def x using True num by auto
    have r: "PageScroll wordwrap render m num True = Some (Inr (parsed wordwrap render ?m1))"
      using pm w h0 by (simp add: PageScroll_def parseContent_parsed)
    have j: "?j < length (content ?m1)" "selectedLine ?m1 = int ?j"
      using ne by (cases "content m"; simp)+
    have e: "lineTotal ?L (take ?j (content m)) + length (?L (content m ! ?j)) = lineTotal ?L (content m)"
      using ne lineTotal_take_Suc[of ?j "content m" ?L] by simp
    have n0: "0 < length (?L (content m ! ?j))" using w wrapped_not_Nil[of "width m" wordwrap] by simp
    have "parsedSelectableLinesMap (parsed wordwrap render ?m1) (selectedLine (parsed wordwrap render ?m1))
           = Some (selectedParsedLines (parsed wordwrap render ?m1)) \<and>
         (\<exists>l\<in>set (selectedParsedLines (parsed wordwrap render ?m1)).
             l \<in> set (viewLines (parsed wordwrap render ?m1)))"
    proof (rule parsed_shows_selection[where j="?j" and l="?T - 1"])
      show "2 < width ?m1" using w by simp
      show "?j < length (content ?m1)" using j by simp
      show "selectedLine ?m1 = int ?j" using j by simp
      have fld: "width ?m1 = width m" "content ?m1 = content m" by simp_all
      show "int (lineTotal (wrapped wordwrap (width ?m1)) (take ?j (content ?m1))) \<le> ?T - 1"
        unfolding fld using e n0 T by linarith
      show "?T - 1 < int (lineTotal (wrapped wordwrap (width ?m1)) (take ?j (content ?m1)))
            + int (length (wrapped wordwrap (width ?m1) (content ?m1 ! ?j)))"
        unfolding fld using e T by linarith
      show "scrolledTop ?m1 \<le> ?T - 1" using h by simp
      show "?T - 1 \<le> height ?m1 - 3 + scrolledTop ?m1" by simp
    qed
    moreover have "0 \<le> scrolledTop (parsed wordwrap render ?m1)" using num(2) s0 by simp
    ultimately show ?thesis using r by blast
  next
    case False
    let ?k = "?x + height m - 3"
    have k: "0 \<le> ?k" "?k < ?T" using False xs s0 h by auto
    then have "nat ?k < lineTotal ?L (content m)" using T by simp
    from lineTotal_decompose[OF this] obtain j i where ji: "j < length (content m)"
        "i < length (?L (content m ! j))" "nat ?k = lineTotal ?L (take j (content m)) + i" by blast
    let ?a = "int (lineTotal ?L (take j (content m)))"
    let ?n = "length (?L (content m ! j))"
    have ka: "?k = ?a + int i" using ji(3) k by linarith
    have lm: "selectableParsedLinesMap m ?k = Some (int j)"
      using parsed_lineMap_inside[OF ji(1,2), of render] m ka by simp
    have rm: "parsedSelectableLinesMap m (int j) = Some (span ?a ?n)"
      using parsed_rowMap_inside[OF w ji(1), of wordwrap render] m by simp
    have n0: "0 < ?n" using ji(2) by linarith
    let ?b = "?a + int ?n - 1"
    let ?m1 = "m\<lparr>scrolledTop := ?x, selectedLine := int j, scrolledTop := ?b - height m + 3\<rparr>"
    have pm: "pageMove m num True = Inr ?m1"
      unfolding pageMove_def Let_def x
      using False num lm rm index_span_last[OF n0, of ?a]
      by (simp add: lineOf_def linesOf_def)
    have r: "PageScroll wordwrap render m num True = Some (Inr (parsed wordwrap render ?m1))"
      using pm w h0 by (simp add: PageScroll_def parseContent_parsed)
    have "parsedSelectableLinesMap (parsed wordwrap render ?m1) (selectedLine (parsed wordwrap render ?m1))
           = Some (selectedParsedLines (parsed wordwrap render ?m1)) \<and>
         (\<exists>l\<in>set (selectedParsedLines (parsed wordwrap render ?m1)).
             l \<in> set (viewLines (parsed wordwrap render ?m1)))"
    proof (rule parsed_shows_selection[where j=j and l="?b"])
      show "2 < width ?m1" using w by simp
      show "j < length (content ?m1)" using ji by simp
      show "selectedLine ?m1 = int j" by simp
      show "int (lineTotal (wrapped wordwrap (width ?m1)) (take j (content ?m1))) \<le> ?b"
        using n0 by simp
      show "?b < int (lineTotal (wrapped wordwrap (width ?m1)) (take j (content ?m1)))
            + int (length (wrapped wordwrap (width ?m1) (content ?m1 ! j)))"
        by simp
      show "scrolledTop ?m1 \<le> ?b" using h by simp
      show "?b \<le> height ?m1 - 3 + scrolledTop ?m1" by simp
    qed
    moreover have "0 \<le> scrolledTop (parsed wordwrap render ?m1)"
      using ka ji(2) xs s0 by simp
    ultimately show ?thesis using r by blast
  qed
qed

lemma PageScroll_up_shows_selection:
  assumes w: "2 < width m" and h: "3 \<le> height m"
    and c: "parseContent wordwrap render m = Some (Inr m)"
    and s1: "scrolledTop m \<le> int (length (parsedContent m))"
    and num: "num < 0" "0 < scrolledTop m"
    and o: "in64 (- num)" "in64 ((height m - 2) * (- num))"
           "in64 (scrolledTop m - (height m - 2) * (- num))"
  shows "\<exists>m'. PageScroll wordwrap render m num True = Some (Inr m') \<and>
           parsedSelectableLinesMap m' (selectedLine m') = Some (selectedParsedLines m') \<and>
           (\<exists>l\<in>set (selectedParsedLines m'). l \<in> set (viewLines m')) \<and> 0 \<le> scrolledTop m'"
proof -
  let ?L = "wrapped wordwrap (width m)"
  let ?T = "int (length (parsedContent m))"
  let ?x = "scrolledTop m - (height m - 2) * (- num)"
  have h0: "height m \<noteq> 0" using h by simp
  have m: "m = parsed wordwrap render m" using w h0 c by (rule up_to_date)
  have T: "length (parsedContent m) = lineTotal ?L (content m)"
    using parsed_length[of wordwrap render m] m by simp
  have x: "i64 (- num) = - num" "i64 ((height m - 2) * (- num)) = (height m - 2) * (- num)"
          "i64 (scrolledTop m - (height m - 2) * (- num)) = ?x"
    using o by (simp_all add: i64_id)
  have "0 < height m - 2" "0 < - num" using num(1) h by simp_all
  then have "0 < (height m - 2) * (- num)" by (rule mult_pos_pos)
  then have xs: "?x < scrolledTop m" by linarith
  have ne: "content m \<noteq> []" using T num(2) s1 by auto
  have nneg: "\<not> 0 < num" using num by simp
  show ?thesis
  proof (cases "?x < 0")
    case True
    let ?m1 = "m\<lparr>scrolledTop := 0, selectedLine := 0\<rparr>"
    have pm: "pageMove m num True = Inr ?m1"
      unfolding pageMove_def Let_def x using True num nneg by simp
    have r: "PageScroll wordwrap render m num True = Some (Inr (parsed wordwrap render ?m1))"
      using pm w h0 by (simp add: PageScroll_def parseContent_parsed)
    have n0: "0 < length (?L (content m ! 0))" using w wrapped_not_Nil[of "width m" wordwrap] by simp
    have "parsedSelectableLinesMap (parsed wordwrap render ?m1) (selectedLine (parsed wordwrap render ?m1))
           = Some (selectedParsedLines (parsed wordwrap render ?m1)) \<and>
         (\<exists>l\<in>set (selectedParsedLines (parsed wordwrap render ?m1)).
             l \<in> set (viewLines (parsed wordwrap render ?m1)))"
    proof (rule parsed_shows_selection[where j=0 and l=0])
      show "2 < width ?m1" using w by simp
      show "0 < length (content ?m1)" using ne by simp
      show "selectedLine ?m1 = int 0" by simp
      show "int (lineTotal (wrapped wordwrap (width ?m1)) (take 0 (content ?m1))) \<le> 0" by simp
      show "0 < int (lineTotal (wrapped wordwrap (width ?m1)) (take 0 (content ?m1)))
            + int (length (wrapped wordwrap (width ?m1) (content ?m1 ! 0)))"
        using n0 by simp
      show "scrolledTop ?m1 \<le> 0" by simp
      show "0 \<le> height ?m1 - 3 + scrolledTop ?m1" using h by simp
    qed
    then show ?thesis using r by auto
  next
    case False
    have k: "0 \<le> ?x" "?x < ?T" using False xs s1 by auto
    then have "nat ?x < lineTotal ?L (content m)" using T by simp
    from lineTotal_decompose[OF this] obtain j i where ji: "j < length (content m)"
        "i < length (?L (content m ! j))" "nat ?x = lineTotal ?L (take j (content m)) + i" by blast
    let ?a = "int (lineTotal ?L (take j (content m)))"
    let ?n = "length (?L (content m ! j))"
    have ka: "?x = ?a + int i" using ji(3) k by linarith
    have lm: "selectableParsedLinesMap m ?x = Some (int j)"
      using parsed_lineMap_inside[OF ji(1,2), of render] m ka by simp
    have rm: "parsedSelectableLinesMap m (int j) = Some (span ?a ?n)"
      using parsed_rowMap_inside[OF w ji(1), of wordwrap render] m by simp
    have n0: "0 < ?n" using ji(2) by linarith
    let ?m1 = "m\<lparr>scrolledTop := ?x, selectedLine := int j, scrolledTop := ?a\<rparr>"
    have pm: "pageMove m num True = Inr ?m1"
      unfolding pageMove_def Let_def x
      using False num nneg lm rm index_span_first[OF n0, of ?a]
      by (simp add: lineOf_def linesOf_def)
    have r: "PageScroll wordwrap render m num True = Some (Inr (parsed wordwrap render ?m1))"
      using pm w h0 by (simp add: PageScroll_def parseContent_parsed)
    have "parsedSelectableLinesMap (parsed wordwrap render ?m1) (selectedLine (parsed wordwrap render ?m1))
           = Some (selectedParsedLines (parsed wordwrap render ?m1)) \<and>
         (\<exists>l\<in>set (selectedParsedLines (parsed wordwrap render ?m1)).
             l \<in> set (viewLines (parsed wordwrap render ?m1)))"
    proof (rule parsed_shows_selection[where j=j and l="?a"])
      show "2 < width ?m1" using w by simp
      show "j < length (content ?m1)" using ji by simp
      show "selectedLine ?m1 = int j" by simp
      show "int (lineTotal (wrapped wordwrap (width ?m1)) (take j (content ?m1))) \<le> ?a" by simp
      show "?a < int (lineTotal (wrapped wordwrap (width ?m1)) (take j (content ?m1)))
            + int (length (wrapped wordwrap (width ?m1) (content ?m1 ! j)))"
        using n0 by simp
      show "scrolledTop ?m1 \<le> ?a" by simp
      show "?a \<le> height ?m1 - 3 + scrolledTop ?m1" using h by simp
    qed
    then show ?thesis using r by auto
  qed
qed

lemma addLines_reset:
  "(addLines L render k p rows m)\<lparr>parsedContent := a, selectedParsedLines := b,
       selectableParsedLinesMap := c, parsedSelectableLinesMap := d\<rparr>
   = m\<lparr>parsedContent := a, selectedParsedLines := b,
       selectableParsedLinesMap := c, parsedSelectableLinesMap := d\<rparr>"
  by (induction rows arbitrary: k p m) (simp_all add: addLine_fields)

lemma parsed_idem: "parsed wordwrap render (parsed wordwrap render m) = parsed wordwrap render m"
proof -
  have r: "(parsed wordwrap render m)\<lparr>parsedContent := [], selectedParsedLines := [],
          selectableParsedLinesMap := Map.empty, parsedSelectableLinesMap := Map.empty\<rparr>
        = m\<lparr>parsedContent := [], selectedParsedLines := [],
          selectableParsedLinesMap := Map.empty, parsedSelectableLinesMap := Map.empty\<rparr>"
    unfolding parsed_def by (subst addLines_reset) simp
  have "parsed wordwrap render (parsed wordwrap render m)
        = addLines (wrapped wordwrap (width (parsed wordwrap render m))) render 0 0
            (content (parsed wordwrap render m))
            ((parsed wordwrap render m)\<lparr>parsedContent := [], selectedParsedLines := [],
               selectableParsedLinesMap := Map.empty, parsedSelectableLinesMap := Map.empty\<rparr>)"
    by (rule parsed_def)
  also have "\<dots> = addLines (wrapped wordwrap (width m)) render 0 0 (content m)
            (m\<lparr>parsedContent := [], selectedParsedLines := [],
               selectableParsedLinesMap := Map.empty, parsedSelectableLinesMap := Map.empty\<rparr>)"
    by (simp only: r parsed_frame)
  also have "\<dots> = parsed wordwrap render m" by (simp only: parsed_def)
  finally show ?thesis .
qed

lemma parsed_up_to_date:
  "2 < width m \<Longrightarrow> height m \<noteq> 0 \<Longrightarrow>
   parseContent wordwrap render (parsed wordwrap render m) = Some (Inr (parsed wordwrap render m))"
  using parseContent_parsed[of "parsed wordwrap render m" wordwrap render]
  by (simp add: parsed_idem)

section \<open>Selection visibility\<close>




text \<open>
  Two states the statement of claim C2 leaves aside. \<open>WithContent\<close> sets \<open>content\<close> and
  \<open>filteredContent\<close> only, so a table fresh from \<open>NewTableModel\<close> has no sorted row until
  \<open>SetContent\<close>, \<open>AppendContent\<close>, \<open>SetFilter\<close> or \<open>Sort\<close> makes them: selecting row 50
  of 100 with ten rows showing scrolls to \<open>41\<close> while \<open>linesHeight\<close> is \<open>0\<close>. And
  \<open>PageScroll\<close> bounds the selection with \<open>m.selectedLine > lenContent\<close>: on six rows
  with \<open>m.height = 10\<close> it selects index \<open>6\<close>, one past the last row.
\<close>

lemma NewTableModel_has_no_sorted_rows:
  "(case NewTableModel [''h''] (replicate 100 [''x'']) of
      Inl e \<Rightarrow> False
    | Inr m0 \<Rightarrow>
        sortedContent m0 = [] \<and> length (filteredContent m0) = 100 \<and>
        scrolledTopT (SetSelectedLineT (SetSizeT m0 40 13) 50) = 41 \<and>
        linesHeight (SetSelectedLineT (SetSizeT m0 40 13) 50) = 0)"
  by (simp add: NewTableModel_def SetSizeT_def SetSelectedLineT_def linesHeight_def Let_def)

lemma PageScrollT_one_past_the_last_row:
  "(case NewTableModel [''h''] (replicate 6 [''x'']) of
      Inl e \<Rightarrow> False
    | Inr m0 \<Rightarrow>
        length (filteredContent m0) = 6 \<and>
        scrolledTopT (PageScrollT (SetSizeT m0 40 10) 1 True) = 0 \<and>
        selectedLineT (PageScrollT (SetSizeT m0 40 10) 1 True) = 6)"
  by (simp add: NewTableModel_def SetSizeT_def PageScrollT_def i64_def Let_def)

section \<open>States on which appending and selecting do otherwise\<close>

text \<open>
  Claim C10 as the specification words it, for every line list, fails on a list that was
  never sized. \<open>NewTextModel(WithContent("a"))\<close> has \<open>m.width = m.height = 0\<close> and the
  first row selected. \<open>AppendContent("b")\<close> selects the new last row, \<open>parseContent\<close>
  returns at its guard with no display line made, and since \<open>0 > m.height - 2\<close> the call
  sets \<open>scrolledTop\<close> to \<open>2\<close>. Nothing is in the window, and after \<open>SetSize(20, 5)\<close>,
  where the two rows would fit the three text rows, the window still starts below them.
\<close>

theorem AppendContent_unsized_counterexample:
  "(case AppendContent (\<lambda>s w. s) (\<lambda>s. s) (NewTextModel [''a'']) [''b''] of
      Some (Inr m1) \<Rightarrow>
        content m1 = [''a'', ''b''] \<and> selectedLine m1 = 1 \<and> parsedContent m1 = [] \<and>
        scrolledTop m1 = 2 \<and> viewLines m1 = [] \<and>
        (case SetSize (\<lambda>s w. s) (\<lambda>s. s) m1 20 5 of
           Some (Inr m2) \<Rightarrow>
             length (parsedContent m2) = 2 \<and> height m2 - 2 = 3 \<and> selectedParsedLines m2 = [1] \<and>
             scrolledTop m2 = 2 \<and> viewLines m2 = []
         | _ \<Rightarrow> False)
    | _ \<Rightarrow> False)"
proof -
  define M1 where "M1 = (NewTextModel [''a''])\<lparr>selectedLine := 1, content := [''a'', ''b''], scrolledTop := 2\<rparr>"
  define M2 where "M2 = parsed (\<lambda>s w. s) (\<lambda>s. s) (M1\<lparr>width := 20, height := 5\<rparr>)"
  have a: "AppendContent (\<lambda>s w. s) (\<lambda>s. s) (NewTextModel [''a'']) [''b''] = Some (Inr M1)"
    by (simp add: AppendContent_def parseContent_def NewTextModel_def M1_def Let_def)
  have f1: "content M1 = [''a'', ''b'']" "selectedLine M1 = 1" "parsedContent M1 = []"
      "scrolledTop M1 = 2" "viewLines M1 = []"
    by (simp_all add: M1_def NewTextModel_def viewLines_def)
  have s: "SetSize (\<lambda>s w. s) (\<lambda>s. s) M1 20 5 = Some (Inr M2)"
    unfolding SetSize_def M2_def by (rule parseContent_parsed) simp_all
  have l: "length (parsedContent M2) = 2"
    unfolding M2_def by (simp add: parsed_length f1 wrapped_id_short)
  have sp: "selectedParsedLines M2 = [1]"
    unfolding M2_def by (simp add: parsed_selected f1 wrapped_id_short span_one)
  have f2: "height M2 - 2 = 3" "scrolledTop M2 = 2"
    by (simp_all add: M2_def f1)
  have v: "viewLines M2 = []"
    by (simp add: viewLines_def l f2 upt_rec)
  show ?thesis
    by (simp add: a f1 s l sp f2 v)
qed

text \<open>
  Claim C8 as the specification words it, without a word on \<open>scrolledTop\<close> before the call.
  A line list of 100 one-line rows is sized to three text rows, its last row is selected
  (\<open>scrolledTop = 97\<close>) and it is resized to ten text rows (\<open>m.height = 12\<close>):
  \<open>SetSelectedLine(99)\<close> finds row 99 in the window and leaves \<open>scrolledTop\<close> at \<open>97\<close>,
  above \<open>90\<close>. And read with the field \<open>m.height\<close> itself \<open>10\<close>, the call on the freshly
  sized list sets \<open>92\<close>: eight text rows show.
\<close>

theorem SetSelectedLine_keeps_97_counterexample:
  "(case SetSize (\<lambda>s w. s) (\<lambda>s. s) (NewTextModel (replicate 100 ''row'')) 20 5 of
      Some (Inr m0) \<Rightarrow>
        (case SetSelectedLine (\<lambda>s w. s) (\<lambda>s. s) m0 99 of
           Some (Inr m1) \<Rightarrow>
             scrolledTop m1 = 97 \<and>
             (case SetSize (\<lambda>s w. s) (\<lambda>s. s) m1 20 12 of
                Some (Inr m2) \<Rightarrow>
                  length (content m2) = 100 \<and> length (parsedContent m2) = 100 \<and>
                  height m2 - 2 = 10 \<and>
                  (case SetSelectedLine (\<lambda>s w. s) (\<lambda>s. s) m2 99 of
                     Some (Inr m3) \<Rightarrow> selectedLine m3 = 99 \<and> scrolledTop m3 = 97
                   | _ \<Rightarrow> False)
              | _ \<Rightarrow> False)
         | _ \<Rightarrow> False)
    | _ \<Rightarrow> False) \<and>
   (case SetSize (\<lambda>s w. s) (\<lambda>s. s) (NewTextModel (replicate 100 ''row'')) 20 10 of
      Some (Inr m0) \<Rightarrow>
        (case SetSelectedLine (\<lambda>s w. s) (\<lambda>s. s) m0 99 of
           Some (Inr m1) \<Rightarrow> height m1 = 10 \<and> selectedLine m1 = 99 \<and> scrolledTop m1 = 92
         | _ \<Rightarrow> False)
    | _ \<Rightarrow> False)"
proof -
  define N where "N = NewTextModel (replicate 100 ''row'')"
  have sel: "\<And>m. content m = replicate 100 ''row'' \<Longrightarrow> width m = 20 \<Longrightarrow>
      selectedParsedLines (parsed (\<lambda>s w. s) (\<lambda>s. s) (m\<lparr>selectedLine := 99\<rparr>)) = span 99 1"
    by (simp add: parsed_selected wrapped_id_short lineTotal_single)
  have len: "\<And>m. content m = replicate 100 ''row'' \<Longrightarrow> width m = 20 \<Longrightarrow>
      length (parsedContent (parsed (\<lambda>s w. s) (\<lambda>s. s) m)) = 100"
    by (simp add: parsed_length wrapped_id_short lineTotal_single)
  have nf: "content N = replicate 100 ''row''" "scrolledTop N = 0"
    by (simp_all add: N_def NewTextModel_def)
  define A0 where "A0 = parsed (\<lambda>s w. s) (\<lambda>s. s) (N\<lparr>width := 20, height := 5\<rparr>)"
  define Q1 where "Q1 = parsed (\<lambda>s w. s) (\<lambda>s. s) (A0\<lparr>selectedLine := 99\<rparr>)"
  define A2 where "A2 = parsed (\<lambda>s w. s) (\<lambda>s. s) (Q1\<lparr>scrolledTop := 97, width := 20, height := 12\<rparr>)"
  define Q3 where "Q3 = parsed (\<lambda>s w. s) (\<lambda>s. s) (A2\<lparr>selectedLine := 99\<rparr>)"
  have a0: "SetSize (\<lambda>s w. s) (\<lambda>s. s) N 20 5 = Some (Inr A0)"
    unfolding SetSize_def A0_def by (rule parseContent_parsed) simp_all
  have f0: "content A0 = replicate 100 ''row''" "width A0 = 20" "height A0 = 5" "scrolledTop A0 = 0"
    by (simp_all add: A0_def nf)
  have s1: "SetSelectedLine (\<lambda>s w. s) (\<lambda>s. s) A0 99 = Some (showSelected Q1)"
    unfolding Q1_def by (rule SetSelectedLine_parsed) (simp_all add: f0)
  have q1: "content Q1 = replicate 100 ''row''" "width Q1 = 20" "height Q1 = 5" "scrolledTop Q1 = 0"
      "selectedParsedLines Q1 = span 99 1"
    by (simp_all add: Q1_def f0 sel)
  have r1: "showSelected Q1 = Inr (Q1\<lparr>scrolledTop := 97\<rparr>)"
    using showSelected_span[OF q1(5)] by (simp add: q1)
  have a2: "SetSize (\<lambda>s w. s) (\<lambda>s. s) (Q1\<lparr>scrolledTop := 97\<rparr>) 20 12 = Some (Inr A2)"
    unfolding SetSize_def A2_def by (rule parseContent_parsed) simp_all
  have f2: "content A2 = replicate 100 ''row''" "width A2 = 20" "height A2 = 12" "scrolledTop A2 = 97"
      "length (parsedContent A2) = 100"
    by (simp_all add: A2_def q1 len)
  have s3: "SetSelectedLine (\<lambda>s w. s) (\<lambda>s. s) A2 99 = Some (showSelected Q3)"
    unfolding Q3_def by (rule SetSelectedLine_parsed) (simp_all add: f2)
  have q3: "height Q3 = 12" "scrolledTop Q3 = 97" "selectedLine Q3 = 99"
      "selectedParsedLines Q3 = span 99 1"
    by (simp_all add: Q3_def f2 sel)
  have r3: "showSelected Q3 = Inr (Q3\<lparr>scrolledTop := 97\<rparr>)"
    using showSelected_span[OF q3(4)] by (simp add: q3)
  define B0 where "B0 = parsed (\<lambda>s w. s) (\<lambda>s. s) (N\<lparr>width := 20, height := 10\<rparr>)"
  define P1 where "P1 = parsed (\<lambda>s w. s) (\<lambda>s. s) (B0\<lparr>selectedLine := 99\<rparr>)"
  have b0: "SetSize (\<lambda>s w. s) (\<lambda>s. s) N 20 10 = Some (Inr B0)"
    unfolding SetSize_def B0_def by (rule parseContent_parsed) simp_all
  have g0: "content B0 = replicate 100 ''row''" "width B0 = 20" "height B0 = 10" "scrolledTop B0 = 0"
    by (simp_all add: B0_def nf)
  have t1: "SetSelectedLine (\<lambda>s w. s) (\<lambda>s. s) B0 99 = Some (showSelected P1)"
    unfolding P1_def by (rule SetSelectedLine_parsed) (simp_all add: g0)
  have p1: "height P1 = 10" "scrolledTop P1 = 0" "selectedLine P1 = 99"
      "selectedParsedLines P1 = span 99 1"
    by (simp_all add: P1_def g0 sel)
  have u1: "showSelected P1 = Inr (P1\<lparr>scrolledTop := 92\<rparr>)"
    using showSelected_span[OF p1(4)] by (simp add: p1)
  show ?thesis
    unfolding N_def[symmetric]
    by (simp add: a0 s1 r1 a2 f2 s3 r3 q3 b0 t1 u1 p1)
qed

end
